theory Spec2Isabelle
  imports Main "HOL-Library.Char_ord" "HOL-Library.List_Lexorder" "HOL-Library.Multiset"
begin

section \<open>What the C++ implementation leaves open\<close>

text \<open>
  The class \<^verbatim>\<open>SuffixArray\<close> of \<^verbatim>\<open>suffix-array.cpp\<close> depends on two things that the
  C++ standard leaves to the implementation. Both are parameters of the model.

  \<^item> Whether plain \<^verbatim>\<open>char\<close> is signed. \<^verbatim>\<open>ra[i] = s[i]\<close> converts a \<^verbatim>\<open>char\<close> to an
    \<^verbatim>\<open>int\<close>: with a signed \<^verbatim>\<open>char\<close> (x86-64) the bytes from 128 on become negative,
    with an unsigned one (ARM Linux) they stay as they are.
  \<^item> What \<^verbatim>\<open>std::sort\<close> does with elements that the comparator does not tell apart.
    The standard only says that the result is a permutation of the input in which no
    element is smaller than an earlier one, provided the comparator is a strict weak
    ordering.

  Strings are compared by \<^verbatim>\<open>std::string::compare\<close>, which orders characters as
  unsigned bytes and a proper prefix before the longer string: this is the order of
  \<^typ>\<open>char list\<close> used below. The C++ \<^verbatim>\<open>int\<close> is taken unbounded; all indices and
  sums of two indices that the code computes stay below \<open>2 * length txt\<close>, so this is
  exact for texts shorter than \<open>2 ^ 30\<close> characters.
\<close>

definition char_to_int :: "bool \<Rightarrow> char \<Rightarrow> int" where
  "char_to_int signed_char c =
     (let v = of_char c in if signed_char \<and> 128 \<le> v then v - 256 else v)"

type_synonym sorter = "(nat \<Rightarrow> nat \<Rightarrow> bool) \<Rightarrow> nat list \<Rightarrow> nat list"

definition strict_weak :: "('a \<Rightarrow> 'a \<Rightarrow> bool) \<Rightarrow> bool" where
  "strict_weak lt =
     ((\<forall>a. \<not> lt a a) \<and> (\<forall>a b c. lt a b \<and> lt b c \<longrightarrow> lt a c) \<and>
      (\<forall>a b c. lt a b \<longrightarrow> lt a c \<or> lt c b))"

definition sorts :: "sorter \<Rightarrow> bool" where
  "sorts srt =
     (\<forall>lt xs. strict_weak lt \<longrightarrow>
        mset (srt lt xs) = mset xs \<and> sorted_wrt (\<lambda>a b. \<not> lt b a) (srt lt xs))"

text \<open>
  One sorting function that meets the requirement: the stable insertion sort. It is
  what the witnesses and counterexamples run; libstdc++ runs an insertion sort on
  ranges of up to 16 elements, and it too leaves equivalent elements in place.
\<close>

fun insert_by :: "('a \<Rightarrow> 'a \<Rightarrow> bool) \<Rightarrow> 'a \<Rightarrow> 'a list \<Rightarrow> 'a list" where
  "insert_by lt x [] = [x]"
| "insert_by lt x (y # ys) = (if lt y x then y # insert_by lt x ys else x # y # ys)"

definition insertion_sort :: "('a \<Rightarrow> 'a \<Rightarrow> bool) \<Rightarrow> 'a list \<Rightarrow> 'a list" where
  "insertion_sort lt xs = foldr (insert_by lt) xs []"

section \<open>Construction\<close>

record suffix_array =
  this_s :: string
  this_n :: nat
  this_k :: nat
  this_sa :: "nat list"
  this_ra :: "int list"
  this_rb :: "int list"

text \<open>\<^verbatim>\<open>cmp(i, j)\<close>, reading the members \<^verbatim>\<open>n\<close>, \<^verbatim>\<open>k\<close> and \<^verbatim>\<open>ra\<close>.\<close>

definition cmp :: "nat \<Rightarrow> nat \<Rightarrow> int list \<Rightarrow> nat \<Rightarrow> nat \<Rightarrow> bool" where
  "cmp n k ra i j =
     (let raik = (if i + k < n then ra ! (i + k) else 0);
          rajk = (if j + k < n then ra ! (j + k) else 0)
      in ra ! i < ra ! j \<or> (ra ! i = ra ! j \<and> raik < rajk))"

text \<open>
  The body of the \<^verbatim>\<open>for (k = 1; k < n; k <<= 1)\<close> loop up to the \<^verbatim>\<open>break\<close> test: the
  sort, the pass that writes the new ranks into \<^verbatim>\<open>rb\<close> and the pass that copies them
  into \<^verbatim>\<open>ra\<close>.
\<close>

definition rank_pass :: "nat \<Rightarrow> nat \<Rightarrow> int list \<Rightarrow> nat list \<Rightarrow> int list \<Rightarrow> int list" where
  "rank_pass n k ra sa rb =
     fold (\<lambda>i rb. rb[sa ! i := rb ! (sa ! (i - 1)) +
                      (if cmp n k ra (sa ! (i - 1)) (sa ! i) then 1 else 0)])
       [1..<n] (rb[sa ! 0 := 1])"

definition copy_pass :: "nat \<Rightarrow> nat list \<Rightarrow> int list \<Rightarrow> int list \<Rightarrow> int list" where
  "copy_pass n sa rb ra = fold (\<lambda>i ra. ra[sa ! i := rb ! (sa ! i)]) [0..<n] ra"

definition build_iter ::
  "sorter \<Rightarrow> nat \<Rightarrow> nat \<Rightarrow> nat list \<times> int list \<times> int list \<Rightarrow> nat list \<times> int list \<times> int list" where
  "build_iter srt n k st =
     (case st of (sa, ra, rb) \<Rightarrow>
        let sa' = srt (cmp n k ra) sa;
            rb' = rank_pass n k ra sa' rb;
            ra' = copy_pass n sa' rb' ra
        in (sa', ra', rb'))"

text \<open>
  The loop. \<^verbatim>\<open>k\<close> starts at 1 and is only doubled, so \<open>0 < k\<close> holds whenever the
  loop test is evaluated; the model states it in the test, where it is what makes the
  recursion terminate. The result carries the final \<^verbatim>\<open>k\<close> too.
\<close>

function build_loop ::
  "sorter \<Rightarrow> nat \<Rightarrow> nat \<Rightarrow> nat list \<times> int list \<times> int list
     \<Rightarrow> nat \<times> nat list \<times> int list \<times> int list" where
  "build_loop srt n k st =
     (if 0 < k \<and> k < n then
        (case build_iter srt n k st of (sa', ra', rb') \<Rightarrow>
           if ra' ! (sa' ! (n - 1)) = int n then (k, sa', ra', rb')
           else build_loop srt n (2 * k) (sa', ra', rb'))
      else (k, st))"
  by pat_completeness auto
termination
  by (relation "measure (\<lambda>(srt, n, k, st). n - k)") auto

definition build ::
  "sorter \<Rightarrow> bool \<Rightarrow> string \<Rightarrow> nat \<Rightarrow> nat list \<times> int list \<times> int list
     \<Rightarrow> nat \<times> nat list \<times> int list \<times> int list" where
  "build srt signed_char s n st =
     (case st of (sa, ra, rb) \<Rightarrow>
        let sa1 = fold (\<lambda>i sa. sa[i := i]) [0..<n] sa;
            ra1 = fold (\<lambda>i ra. ra[i := char_to_int signed_char (s ! i)]) [0..<n] ra
        in build_loop srt n 1 (sa1, ra1, rb))"

definition SuffixArray :: "sorter \<Rightarrow> bool \<Rightarrow> string \<Rightarrow> suffix_array" where
  "SuffixArray srt signed_char txt =
     (let n = length txt in
      case build srt signed_char txt n (replicate n 0, replicate n 0, replicate n 0) of
        (k, sa, ra, rb) \<Rightarrow>
          \<lparr>this_s = txt, this_n = n, this_k = k, this_sa = sa, this_ra = ra, this_rb = rb\<rparr>)"

text \<open>
  The doubling steps of \<^verbatim>\<open>build\<close>: each \<^verbatim>\<open>k\<close> for which the loop body runs, with
  the state in which it starts (the arrays that \<^verbatim>\<open>cmp\<close> reads during that step). It is
  the recursion of \<open>build_loop\<close>, keeping every state it passes through; the state
  after the iteration with step \<open>k\<close> is \<open>build_iter\<close> of the state kept for \<open>k\<close>.
\<close>

function build_trace ::
  "sorter \<Rightarrow> nat \<Rightarrow> nat \<Rightarrow> nat list \<times> int list \<times> int list
     \<Rightarrow> (nat \<times> nat list \<times> int list \<times> int list) list" where
  "build_trace srt n k st =
     (if 0 < k \<and> k < n then
        (k, st) #
          (case build_iter srt n k st of (sa', ra', rb') \<Rightarrow>
             if ra' ! (sa' ! (n - 1)) = int n then []
             else build_trace srt n (2 * k) (sa', ra', rb'))
      else [])"
  by pat_completeness auto
termination
  by (relation "measure (\<lambda>(srt, n, k, st). n - k)") auto

definition doubling_steps ::
  "sorter \<Rightarrow> bool \<Rightarrow> string \<Rightarrow> (nat \<times> nat list \<times> int list \<times> int list) list" where
  "doubling_steps srt signed_char txt =
     (let n = length txt;
          sa1 = fold (\<lambda>i sa. sa[i := i]) [0..<n] (replicate n 0);
          ra1 = fold (\<lambda>i ra. ra[i := char_to_int signed_char (txt ! i)]) [0..<n] (replicate n 0)
      in build_trace srt n 1 (sa1, ra1, replicate n 0))"

section \<open>Queries\<close>

text \<open>
  \<^verbatim>\<open>v[i]\<close> on a vector and \<^verbatim>\<open>s[i]\<close> on a string outside the container are undefined
  behaviour: the model returns \<open>OutOfBounds\<close>. \<^verbatim>\<open>s[s.size()]\<close> is the terminating
  NUL. \<^verbatim>\<open>compare\<close> and \<^verbatim>\<open>substr\<close> throw \<^verbatim>\<open>std::out_of_range\<close> when the position is
  beyond the size: \<open>OutOfRangeThrown\<close>.
\<close>

datatype error = OutOfBounds | OutOfRangeThrown

definition vec_at :: "'a list \<Rightarrow> int \<Rightarrow> error + 'a" where
  "vec_at v i = (if 0 \<le> i \<and> i < int (length v) then Inr (v ! nat i) else Inl OutOfBounds)"

definition vec_set :: "'a list \<Rightarrow> int \<Rightarrow> 'a \<Rightarrow> error + 'a list" where
  "vec_set v i x =
     (if 0 \<le> i \<and> i < int (length v) then Inr (v[nat i := x]) else Inl OutOfBounds)"

definition str_at :: "string \<Rightarrow> int \<Rightarrow> error + char" where
  "str_at s i =
     (if 0 \<le> i \<and> i < int (length s) then Inr (s ! nat i)
      else if i = int (length s) then Inr (CHR 0x00)
      else Inl OutOfBounds)"

definition str_compare :: "string \<Rightarrow> nat \<Rightarrow> nat \<Rightarrow> string \<Rightarrow> error + int" where
  "str_compare s pos len str =
     (if length s < pos then Inl OutOfRangeThrown
      else let w = take len (drop pos s)
           in Inr (if w < str then - 1 else if w = str then 0 else 1))"

definition substr :: "string \<Rightarrow> nat \<Rightarrow> nat \<Rightarrow> error + string" where
  "substr s pos len =
     (if length s < pos then Inl OutOfRangeThrown else Inr (take len (drop pos s)))"

subsection \<open>\<^verbatim>\<open>find\<close>\<close>

text \<open>
  The two binary searches and the loop that collects the positions. The midpoints
  \<^verbatim>\<open>(lo + hi) / 2\<close> and \<^verbatim>\<open>(lo + hi + 1) / 2\<close> are computed only while \<^verbatim>\<open>lo < hi\<close>, with
  \<^verbatim>\<open>lo\<close> no less than 0 in the first search and no less than \<open>-1\<close> in the second, so
  on sums that are not negative, where the division of C++ and \<open>div\<close> agree.
\<close>

function lower_bound_loop :: "suffix_array \<Rightarrow> string \<Rightarrow> int \<Rightarrow> int \<Rightarrow> error + int" where
  "lower_bound_loop t p lo hi =
     (if lo < hi then
        (let mi = (lo + hi) div 2 in
         case vec_at (this_sa t) mi of
           Inl e \<Rightarrow> Inl e
         | Inr pos \<Rightarrow>
             (case str_compare (this_s t) pos (length p) p of
                Inl e \<Rightarrow> Inl e
              | Inr c \<Rightarrow>
                  if c < 0 then lower_bound_loop t p (mi + 1) hi
                  else lower_bound_loop t p lo mi))
      else Inr lo)"
  by pat_completeness auto
termination
  by (relation "measure (\<lambda>(t, p, lo, hi). nat (hi - lo))") auto

function upper_bound_loop :: "suffix_array \<Rightarrow> string \<Rightarrow> int \<Rightarrow> int \<Rightarrow> error + int" where
  "upper_bound_loop t p lo hi =
     (if lo < hi then
        (let mi = (lo + hi + 1) div 2 in
         case vec_at (this_sa t) mi of
           Inl e \<Rightarrow> Inl e
         | Inr pos \<Rightarrow>
             (case str_compare (this_s t) pos (length p) p of
                Inl e \<Rightarrow> Inl e
              | Inr c \<Rightarrow>
                  if 0 < c then upper_bound_loop t p lo (mi - 1)
                  else upper_bound_loop t p mi hi))
      else Inr hi)"
  by pat_completeness auto
termination
  by (relation "measure (\<lambda>(t, p, lo, hi). nat (hi - lo))") auto

function collect_loop :: "suffix_array \<Rightarrow> int \<Rightarrow> int \<Rightarrow> nat list \<Rightarrow> error + nat list" where
  "collect_loop t i hi pos =
     (if i \<le> hi then
        (case vec_at (this_sa t) i of
           Inl e \<Rightarrow> Inl e
         | Inr x \<Rightarrow> collect_loop t (i + 1) hi (pos @ [x]))
      else Inr pos)"
  by pat_completeness auto
termination
  by (relation "measure (\<lambda>(t, i, hi, pos). nat (hi + 1 - i))") auto

definition find_sa :: "suffix_array \<Rightarrow> string \<Rightarrow> error + nat list" where
  "find_sa t p =
     (let m = length p in
      case lower_bound_loop t p 0 (int (this_n t)) of
        Inl e \<Rightarrow> Inl e
      | Inr lo \<Rightarrow>
          (case vec_at (this_sa t) lo of
             Inl e \<Rightarrow> Inl e
           | Inr pos \<Rightarrow>
               (case str_compare (this_s t) pos m p of
                  Inl e \<Rightarrow> Inl e
                | Inr c \<Rightarrow>
                    if c \<noteq> 0 then Inr []
                    else
                      (case upper_bound_loop t p (- 1) (int (this_n t) - 1) of
                         Inl e \<Rightarrow> Inl e
                       | Inr hi \<Rightarrow> collect_loop t lo hi []))))"

subsection \<open>\<^verbatim>\<open>findLCP\<close>\<close>

fun phi_loop :: "nat list \<Rightarrow> nat list \<Rightarrow> int list \<Rightarrow> error + int list" where
  "phi_loop sa [] phi = Inr phi"
| "phi_loop sa (i # js) phi =
     (case vec_at sa (int i) of
        Inl e \<Rightarrow> Inl e
      | Inr x \<Rightarrow>
          (case vec_at sa (int i - 1) of
             Inl e \<Rightarrow> Inl e
           | Inr y \<Rightarrow>
               (case vec_set phi (int x) (int y) of
                  Inl e \<Rightarrow> Inl e
                | Inr phi' \<Rightarrow> phi_loop sa js phi')))"

definition build_phi :: "suffix_array \<Rightarrow> error + int list" where
  "build_phi t =
     (case vec_at (this_sa t) 0 of
        Inl e \<Rightarrow> Inl e
      | Inr x \<Rightarrow>
          (case vec_set (replicate (this_n t) 0) (int x) (- 1) of
             Inl e \<Rightarrow> Inl e
           | Inr phi \<Rightarrow> phi_loop (this_sa t) [1..<this_n t] phi))"

text \<open>\<^verbatim>\<open>while (s[i + L] == s[phi[i] + L]) L++;\<close> with \<open>j\<close> for \<^verbatim>\<open>phi[i]\<close>.\<close>

function lcp_extend :: "string \<Rightarrow> int \<Rightarrow> int \<Rightarrow> nat \<Rightarrow> error + nat" where
  "lcp_extend s i j L =
     (case str_at s (i + int L) of
        Inl e \<Rightarrow> Inl e
      | Inr a \<Rightarrow>
          (case str_at s (j + int L) of
             Inl e \<Rightarrow> Inl e
           | Inr b \<Rightarrow> if a = b then lcp_extend s i j (L + 1) else Inr L))"
  by pat_completeness auto
termination
  by (relation "measure (\<lambda>(s, i, j, L). nat (int (length s) + 1 - (i + int L)))")
    (auto simp: str_at_def split: if_splits)

text \<open>
  The state of the second loop of \<^verbatim>\<open>findLCP\<close>: \<^verbatim>\<open>plcp\<close>, \<^verbatim>\<open>L\<close>, \<^verbatim>\<open>maxL\<close> and \<^verbatim>\<open>lcp\<close>.
  \<^verbatim>\<open>L\<close> is a count that never goes below 0, a \<^typ>\<open>nat\<close>.
\<close>

type_synonym lcp_state = "nat list \<times> nat \<times> nat \<times> string"

definition plcp_step :: "string \<Rightarrow> int list \<Rightarrow> nat \<Rightarrow> lcp_state \<Rightarrow> error + lcp_state" where
  "plcp_step s phi i st =
     (case st of (plcp, L, maxL, lcp) \<Rightarrow>
      (case vec_at phi (int i) of
        Inl e \<Rightarrow> Inl e
      | Inr ph \<Rightarrow>
          if ph = - 1 then
            (case vec_set plcp (int i) 0 of
               Inl e \<Rightarrow> Inl e
             | Inr plcp' \<Rightarrow> Inr (plcp', L, maxL, lcp))
          else
            (case lcp_extend s (int i) ph L of
               Inl e \<Rightarrow> Inl e
             | Inr L' \<Rightarrow>
                 (case vec_set plcp (int i) L' of
                    Inl e \<Rightarrow> Inl e
                  | Inr plcp' \<Rightarrow>
                      if maxL < L' then
                        (case substr s i L' of
                           Inl e \<Rightarrow> Inl e
                         | Inr lcp' \<Rightarrow> Inr (plcp', max (L' - 1) 0, L', lcp'))
                      else Inr (plcp', max (L' - 1) 0, maxL, lcp)))))"

fun plcp_loop :: "string \<Rightarrow> int list \<Rightarrow> nat list \<Rightarrow> lcp_state \<Rightarrow> error + lcp_state" where
  "plcp_loop s phi [] st = Inr st"
| "plcp_loop s phi (i # js) st =
     (case plcp_step s phi i st of
        Inl e \<Rightarrow> Inl e
      | Inr st' \<Rightarrow> plcp_loop s phi js st')"

definition findLCP_run :: "suffix_array \<Rightarrow> error + lcp_state" where
  "findLCP_run t =
     (case build_phi t of
        Inl e \<Rightarrow> Inl e
      | Inr phi \<Rightarrow>
          plcp_loop (this_s t) phi [0..<this_n t] (replicate (this_n t) 0, 0, 0, []))"

definition findLCP :: "suffix_array \<Rightarrow> error + string" where
  "findLCP t =
     (case findLCP_run t of
        Inl e \<Rightarrow> Inl e
      | Inr st \<Rightarrow> (case st of (plcp, L, maxL, lcp) \<Rightarrow> Inr lcp))"

section \<open>Notions used to state the properties\<close>

text \<open>
  The rank that the second pass of an iteration gives to the suffix at position \<open>p\<close> of
  the sorted array: 1 at position 0, and one more than its predecessor's exactly where
  \<^verbatim>\<open>cmp\<close> tells the two apart.
\<close>

fun new_rank :: "nat \<Rightarrow> nat \<Rightarrow> int list \<Rightarrow> nat list \<Rightarrow> nat \<Rightarrow> int" where
  "new_rank n k ra sa 0 = 1"
| "new_rank n k ra sa (Suc p) =
     new_rank n k ra sa p + (if cmp n k ra (sa ! p) (sa ! Suc p) then 1 else 0)"


text \<open>
  A text is valid when every character converts to a positive \<^verbatim>\<open>int\<close>: no NUL, and
  no byte from 128 on where plain \<^verbatim>\<open>char\<close> is signed. \<open>rank_inv s k ra\<close> says that the
  ranks \<open>ra\<close> are positive and order the suffixes of \<open>s\<close> as their first \<open>k\<close> characters
  do; \<open>rank_eq_inv s k ra\<close> says only that no rank is 0 and that two ranks are equal
  exactly when the first \<open>k\<close> characters of the suffixes are, which needs no more than
  a text without NUL. \<open>sorted_suffixes s sa\<close> says that \<open>sa\<close> lists suffixes of \<open>s\<close> in lexicographic
  order.
\<close>

definition valid_text :: "bool \<Rightarrow> string \<Rightarrow> bool" where
  "valid_text signed_char s = (\<forall>c\<in>set s. 0 < char_to_int signed_char c)"

definition rank_inv :: "string \<Rightarrow> nat \<Rightarrow> int list \<Rightarrow> bool" where
  "rank_inv s k ra =
     (length ra = length s \<and> (\<forall>i<length s. 0 < ra ! i) \<and>
      (\<forall>i<length s. \<forall>j<length s.
         (ra ! i < ra ! j) = (take k (drop i s) < take k (drop j s))))"

definition rank_eq_inv :: "string \<Rightarrow> nat \<Rightarrow> int list \<Rightarrow> bool" where
  "rank_eq_inv s k ra =
     (length ra = length s \<and> (\<forall>i<length s. ra ! i \<noteq> 0) \<and>
      (\<forall>i<length s. \<forall>j<length s.
         (ra ! i = ra ! j) = (take k (drop i s) = take k (drop j s))))"

definition sorted_suffixes :: "string \<Rightarrow> nat list \<Rightarrow> bool" where
  "sorted_suffixes s sa = sorted_wrt (\<lambda>a b. drop a s \<le> drop b s) sa"


text \<open>
  What the second pass of an iteration with step \<open>k\<close> establishes: along the sorted
  array \<open>sa'\<close> the new ranks \<open>ra'\<close> start at 1 and go up by one exactly where \<^verbatim>\<open>cmp\<close>,
  reading the old ranks \<open>ra\<close>, tells two neighbours apart.
\<close>

definition ranks_normalized :: "nat \<Rightarrow> nat \<Rightarrow> int list \<Rightarrow> nat list \<Rightarrow> int list \<Rightarrow> bool" where
  "ranks_normalized n k ra sa' ra' =
     (ra' ! (sa' ! 0) = 1 \<and>
      (\<forall>p. Suc p < n \<longrightarrow>
         ra' ! (sa' ! Suc p) =
           ra' ! (sa' ! p) + (if cmp n k ra (sa' ! p) (sa' ! Suc p) then 1 else 0)))"

text \<open>
  What the constructor establishes for every text: \<^verbatim>\<open>n\<close> is the length of \<^verbatim>\<open>s\<close> and \<^verbatim>\<open>sa\<close>
  is a permutation of \<open>[0, n)\<close>. \<open>window t m i\<close> is what \<^verbatim>\<open>find\<close> compares the pattern
  with at rank \<open>i\<close>: the first \<open>m\<close> characters of the suffix \<^verbatim>\<open>sa[i]\<close>. \<open>occurrences s p\<close>
  are the start positions in \<open>[0, n)\<close> at which \<open>p\<close> occurs in \<open>s\<close>.
\<close>

definition wf_index :: "suffix_array \<Rightarrow> bool" where
  "wf_index t =
     (this_n t = length (this_s t) \<and> mset (this_sa t) = mset [0..<this_n t])"

definition window :: "suffix_array \<Rightarrow> nat \<Rightarrow> nat \<Rightarrow> string" where
  "window t m i = take m (drop (this_sa t ! i) (this_s t))"

definition occurrences :: "string \<Rightarrow> string \<Rightarrow> nat set" where
  "occurrences s p = {k. k < length s \<and> take (length p) (drop k s) = p}"

text \<open>The length of the longest common prefix of two strings.\<close>

fun lcpl :: "'a list \<Rightarrow> 'a list \<Rightarrow> nat" where
  "lcpl (x # xs) (y # ys) = (if x = y then Suc (lcpl xs ys) else 0)"
| "lcpl xs ys = 0"

text \<open>
  \<open>is_phi sa phi\<close>: \<open>phi\<close> maps every suffix to its predecessor in \<open>sa\<close>, and the first one
  to \<open>-1\<close>. \<open>plcp_of s phi i\<close> is the length of the longest common prefix of the suffix
  \<open>i\<close> and the suffix \<open>phi[i]\<close>, and 0 where \<open>phi[i]\<close> is \<open>-1\<close>.
\<close>

definition is_phi :: "nat list \<Rightarrow> int list \<Rightarrow> bool" where
  "is_phi sa phi =
     (length phi = length sa \<and> phi ! (sa ! 0) = - 1 \<and>
      (\<forall>p. 0 < p \<and> p < length sa \<longrightarrow> phi ! (sa ! p) = int (sa ! (p - 1))))"

definition plcp_of :: "string \<Rightarrow> int list \<Rightarrow> nat \<Rightarrow> nat" where
  "plcp_of s phi i = (if phi ! i = - 1 then 0 else lcpl (drop i s) (drop (nat (phi ! i)) s))"

text \<open>
  The invariant of the second loop of \<^verbatim>\<open>findLCP\<close> when it is about to treat
  position \<open>m\<close>: \<^verbatim>\<open>plcp\<close> is right below \<open>m\<close>, the counter \<^verbatim>\<open>L\<close> is at most the value due at
  \<open>m\<close>, \<^verbatim>\<open>maxL\<close> is the greatest value below \<open>m\<close>, and \<^verbatim>\<open>lcp\<close> is a common prefix of that
  length.
\<close>

definition plcp_inv :: "string \<Rightarrow> int list \<Rightarrow> nat \<Rightarrow> lcp_state \<Rightarrow> bool" where
  "plcp_inv s phi m st =
     (case st of (plcp, L, maxL, lcp) \<Rightarrow>
        length plcp = length s \<and>
        (\<forall>i<m. plcp ! i = plcp_of s phi i) \<and>
        (m < length s \<longrightarrow> L \<le> plcp_of s phi m) \<and>
        (\<forall>i<m. plcp_of s phi i \<le> maxL) \<and> length lcp = maxL \<and>
        (maxL = 0 \<or> (\<exists>i<m. plcp_of s phi i = maxL \<and> lcp = take maxL (drop i s))))"

section \<open>The sorting function and the loops of the construction\<close>

lemma mset_insert_by: "mset (insert_by lt x xs) = add_mset x (mset xs)"
  by (induction xs) auto

lemma set_insert_by: "set (insert_by lt x xs) = insert x (set xs)"
  by (induction xs) auto

lemma sorted_insert_by:
  assumes "strict_weak lt" and "sorted_wrt (\<lambda>a b. \<not> lt b a) xs"
  shows "sorted_wrt (\<lambda>a b. \<not> lt b a) (insert_by lt x xs)"
  using assms(2)
proof (induction xs)
  case Nil
  then show ?case by simp
next
  case (Cons y ys)
  have asym: "\<And>a b. lt a b \<Longrightarrow> \<not> lt b a"
    using assms(1) unfolding strict_weak_def by blast
  have negtr: "\<And>a b c. lt a b \<Longrightarrow> lt a c \<or> lt c b"
    using assms(1) unfolding strict_weak_def by blast
  show ?case
  proof (cases "lt y x")
    case True
    then show ?thesis using Cons asym by (auto simp: set_insert_by)
  next
    case False
    then show ?thesis using Cons negtr by auto
  qed
qed

lemma insertion_sort_sorts: "sorts insertion_sort"
proof -
  have m: "mset (insertion_sort lt xs) = mset xs" for lt :: "nat \<Rightarrow> nat \<Rightarrow> bool" and xs
    unfolding insertion_sort_def by (induction xs) (simp_all add: mset_insert_by)
  have s: "sorted_wrt (\<lambda>a b. \<not> lt b a) (insertion_sort lt xs)"
    if "strict_weak lt" for lt :: "nat \<Rightarrow> nat \<Rightarrow> bool" and xs
    unfolding insertion_sort_def by (induction xs) (simp_all add: sorted_insert_by [OF that])
  show ?thesis unfolding sorts_def using m s by blast
qed

lemma strict_weak_cmp: "strict_weak (cmp n k ra)"
  unfolding strict_weak_def cmp_def Let_def by auto

lemma fold_assign_nth:
  "length (fold (\<lambda>i ys. ys[i := f i]) [0..<m] xs) = length xs \<and>
   (\<forall>j<length xs. fold (\<lambda>i ys. ys[i := f i]) [0..<m] xs ! j = (if j < m then f j else xs ! j))"
  by (induction m) (auto simp: nth_list_update less_Suc_eq)

lemma fold_assign: "length xs = n \<Longrightarrow> fold (\<lambda>i ys. ys[i := f i]) [0..<n] xs = map f [0..<n]"
  by (rule nth_equalityI) (simp_all add: fold_assign_nth)

lemma perm_upto_facts:
  assumes "mset sa = mset [0..<n]"
  shows "length sa = n" and "distinct sa" and "set sa = {0..<n}"
proof -
  show "length sa = n" using mset_eq_length [OF assms] by simp
  show "distinct sa" using mset_eq_imp_distinct_iff [OF assms] by simp
  show "set sa = {0..<n}" using mset_eq_setD [OF assms] by simp
qed

lemma perm_upto_nth: "mset sa = mset [0..<n] \<Longrightarrow> p < n \<Longrightarrow> sa ! p < n"
  using perm_upto_facts [of sa n] nth_mem [of p sa] by auto

lemma rank_pass_prefix:
  fixes sa :: "nat list" and rb :: "int list"
  assumes sa: "mset sa = mset [0..<n]" and rb: "length rb = n"
    and step: "step = (\<lambda>i rb. rb[sa ! i := rb ! (sa ! (i - 1)) +
                      (if cmp n k ra (sa ! (i - 1)) (sa ! i) then 1 else 0)])"
    and m: "1 \<le> m" "m \<le> n"
  shows "length (fold step [1..<m] (rb[sa ! 0 := 1])) = n \<and>
         (\<forall>p<m. fold step [1..<m] (rb[sa ! 0 := 1]) ! (sa ! p) = new_rank n k ra sa p)"
  using m
proof (induction m)
  case 0
  then show ?case by simp
next
  case (Suc m)
  note f = perm_upto_facts [OF sa]
  show ?case
  proof (cases "m = 0")
    case True
    have "sa ! 0 < n" using perm_upto_nth [OF sa, of 0] Suc.prems by simp
    then show ?thesis using True rb by simp
  next
    case False
    then have m: "1 \<le> m" "m \<le> n" "m < n" using Suc.prems by auto
    define F where "F = fold step [1..<m] (rb[sa ! 0 := 1])"
    have IH: "length F = n" "\<And>p. p < m \<Longrightarrow> F ! (sa ! p) = new_rank n k ra sa p"
      using Suc.IH m unfolding F_def by auto
    have upt: "[1..<Suc m] = [1..<m] @ [m]" using m by simp
    have F': "fold step [1..<Suc m] (rb[sa ! 0 := 1]) = step m F"
      unfolding upt F_def by simp
    have ne: "sa ! p \<noteq> sa ! m" if "p < m" for p
      using f(1,2) m that by (simp add: nth_eq_iff_index_eq)
    obtain m' where m': "m = Suc m'" using False by (cases m) auto
    have inb: "sa ! m < length F" using perm_upto_nth [OF sa m(3)] IH(1) by simp
    have "step m F ! (sa ! p) = new_rank n k ra sa p" if "p < Suc m" for p
    proof (cases "p = m")
      case True
      have "step m F ! (sa ! m) = F ! (sa ! m') + (if cmp n k ra (sa ! m') (sa ! m) then 1 else 0)"
        unfolding step using inb m' by simp
      then show ?thesis using IH(2)[of m'] m' True by simp
    next
      case False
      then have pm: "p < m" using that by simp
      have "step m F ! (sa ! p) = F ! (sa ! p)"
        unfolding step using ne [OF pm] by simp
      then show ?thesis using IH(2)[OF pm] by simp
    qed
    moreover have "length (step m F) = n" unfolding step using IH(1) by simp
    ultimately show ?thesis unfolding F' by blast
  qed
qed

lemma rank_pass_nth:
  assumes "mset sa = mset [0..<n]" "length rb = n" "0 < n"
  shows "length (rank_pass n k ra sa rb) = n"
    and "p < n \<Longrightarrow> rank_pass n k ra sa rb ! (sa ! p) = new_rank n k ra sa p"
proof -
  have "1 \<le> n" using assms(3) by simp
  from rank_pass_prefix [OF assms(1,2) refl this le_refl, of k ra]
  show "length (rank_pass n k ra sa rb) = n"
    and "p < n \<Longrightarrow> rank_pass n k ra sa rb ! (sa ! p) = new_rank n k ra sa p"
    unfolding rank_pass_def by blast+
qed

lemma copy_pass_prefix:
  fixes sa :: "nat list" and rb ra :: "int list"
  assumes sa: "mset sa = mset [0..<n]" and rb: "length rb = n" and ra: "length ra = n"
    and step: "step = (\<lambda>i ra. ra[sa ! i := rb ! (sa ! i)])"
    and m: "m \<le> n"
  shows "length (fold step [0..<m] ra) = n \<and>
         (\<forall>j<n. fold step [0..<m] ra ! j = (if j \<in> set (take m sa) then rb ! j else ra ! j))"
  using m
proof (induction m)
  case 0
  then show ?case using ra by simp
next
  case (Suc m)
  note f = perm_upto_facts [OF sa]
  from Suc have m: "m < n" "m \<le> n" by auto
  define G where "G = fold step [0..<m] ra"
  have IH: "length G = n" "\<And>j. j < n \<Longrightarrow> G ! j = (if j \<in> set (take m sa) then rb ! j else ra ! j)"
    using Suc.IH m unfolding G_def by auto
  have G': "fold step [0..<Suc m] ra = G[sa ! m := rb ! (sa ! m)]"
    unfolding G_def step by simp
  have tk: "set (take (Suc m) sa) = insert (sa ! m) (set (take m sa))"
    using m f(1) by (simp add: take_Suc_conv_app_nth)
  have "G[sa ! m := rb ! (sa ! m)] ! j = (if j \<in> set (take (Suc m) sa) then rb ! j else ra ! j)"
    if "j < n" for j
  proof (cases "j = sa ! m")
    case True
    then show ?thesis using that IH(1) tk by simp
  next
    case False
    then show ?thesis using that IH(2)[OF that] tk by simp
  qed
  then show ?case unfolding G' using IH(1) by simp
qed

lemma copy_pass_eq:
  assumes "mset sa = mset [0..<n]" "length rb = n" "length ra = n"
  shows "copy_pass n sa rb ra = rb"
proof (rule nth_equalityI)
  note f = perm_upto_facts [OF assms(1)]
  have P: "length (copy_pass n sa rb ra) = n \<and>
         (\<forall>j<n. copy_pass n sa rb ra ! j = (if j \<in> set (take n sa) then rb ! j else ra ! j))"
    unfolding copy_pass_def using copy_pass_prefix [OF assms refl le_refl] by simp
  show "length (copy_pass n sa rb ra) = length rb" using P assms(2) by simp
  show "copy_pass n sa rb ra ! i = rb ! i" if "i < length (copy_pass n sa rb ra)" for i
    using P that f by simp
qed

lemma take_less_split:
  fixes x y :: "'a::linorder list"
  shows "take (k + m) x < take (k + m) y \<longleftrightarrow>
         take k x < take k y \<or> (take k x = take k y \<and> take m (drop k x) < take m (drop k y))"
proof (induction k arbitrary: x y)
  case 0
  then show ?case by simp
next
  case (Suc k)
  show ?case
  proof (cases x)
    case Nil
    then show ?thesis by (cases y) auto
  next
    case (Cons a x')
    then show ?thesis using Suc [of x'] by (cases y) auto
  qed
qed

lemma take_less_imp_less:
  fixes a b :: "'a::linorder list"
  shows "take m a < take m b \<Longrightarrow> a < b"
proof (induction m arbitrary: a b)
  case 0
  then show ?case by simp
next
  case (Suc m)
  show ?case
  proof (cases a)
    case Nil
    then show ?thesis using Suc.prems by (cases b) auto
  next
    case (Cons u a')
    then show ?thesis using Suc.prems Suc.IH [of a'] by (cases b) auto
  qed
qed

lemma take_mono_le:
  fixes a b :: "'a::linorder list"
  shows "a \<le> b \<Longrightarrow> take m a \<le> take m b"
  using take_less_imp_less [of m b a] by (meson leD leI)

lemma new_rank_sorted:
  assumes srt: "sorted_wrt (\<lambda>a b. \<not> cmp n k ra b a) sa" and len: "length sa = n"
    and pq: "p \<le> q" "q < n"
  shows "new_rank n k ra sa p \<le> new_rank n k ra sa q \<and>
         (new_rank n k ra sa p < new_rank n k ra sa q \<longleftrightarrow> cmp n k ra (sa ! p) (sa ! q))"
  using pq
proof (induction q)
  case 0
  then show ?case using strict_weak_cmp [of n k ra] unfolding strict_weak_def by simp
next
  case (Suc q)
  have sw: "\<And>a. \<not> cmp n k ra a a" "\<And>a b c. cmp n k ra a b \<Longrightarrow> cmp n k ra a c \<or> cmp n k ra c b"
    using strict_weak_cmp [of n k ra] unfolding strict_weak_def by blast+
  have ord: "\<And>i j. i < j \<Longrightarrow> j < n \<Longrightarrow> \<not> cmp n k ra (sa ! j) (sa ! i)"
    using srt len by (simp add: sorted_wrt_iff_nth_less)
  show ?case
  proof (cases "p = Suc q")
    case True
    then show ?thesis using sw(1) by simp
  next
    case False
    then have pq: "p \<le> q" "q < n" using Suc.prems by auto
    note IH = Suc.IH [OF pq]
    let ?d = "cmp n k ra (sa ! q) (sa ! Suc q)"
    have mono: "new_rank n k ra sa p \<le> new_rank n k ra sa (Suc q)" using IH by simp
    have "new_rank n k ra sa p < new_rank n k ra sa (Suc q) \<longleftrightarrow>
          cmp n k ra (sa ! p) (sa ! q) \<or> ?d"
      using IH by auto
    also have "\<dots> \<longleftrightarrow> cmp n k ra (sa ! p) (sa ! Suc q)"
    proof
      assume "cmp n k ra (sa ! p) (sa ! q) \<or> ?d"
      then show "cmp n k ra (sa ! p) (sa ! Suc q)"
      proof
        assume "cmp n k ra (sa ! p) (sa ! q)"
        then show ?thesis using sw(2) [of "sa ! p" "sa ! q" "sa ! Suc q"] ord [of q "Suc q"] Suc.prems
          by auto
      next
        assume d: ?d
        show ?thesis
        proof (cases "p = q")
          case True
          then show ?thesis using d by simp
        next
          case False
          then have "p < q" using pq by simp
          then show ?thesis using d sw(2) [of "sa ! q" "sa ! Suc q" "sa ! p"] ord [of p q] pq by auto
        qed
      qed
    next
      assume "cmp n k ra (sa ! p) (sa ! Suc q)"
      then show "cmp n k ra (sa ! p) (sa ! q) \<or> ?d"
        using sw(2) [of "sa ! p" "sa ! Suc q" "sa ! q"] by auto
    qed
    finally show ?thesis using mono by simp
  qed
qed

lemma new_rank_less_iff:
  assumes srt: "sorted_wrt (\<lambda>a b. \<not> cmp n k ra b a) sa" and len: "length sa = n"
    and pq: "p < n" "q < n"
  shows "new_rank n k ra sa p < new_rank n k ra sa q \<longleftrightarrow> cmp n k ra (sa ! p) (sa ! q)"
proof (cases "p \<le> q")
  case True
  then show ?thesis using new_rank_sorted [OF srt len True pq(2)] by simp
next
  case False
  then have qp: "q \<le> p" "q < p" by auto
  have "\<not> cmp n k ra (sa ! p) (sa ! q)"
    using srt len qp(2) pq by (simp add: sorted_wrt_iff_nth_less)
  then show ?thesis using new_rank_sorted [OF srt len qp(1) pq(1)] by auto
qed

lemma new_rank_bounds: "1 \<le> new_rank n k ra sa p \<and> new_rank n k ra sa p \<le> int p + 1"
  by (induction p) auto

lemma int_of_char: "(of_char c :: int) = int (of_char c)"
  by (simp add: of_nat_of_char)

lemma char_to_int_pos:
  assumes "0 < char_to_int sg c"
  shows "char_to_int sg c = int (of_char c)"
proof -
  define v :: nat where "v = of_char c"
  have v: "v < 256" unfolding v_def by simp
  have "char_to_int sg c = (if sg \<and> 128 \<le> int v then int v - 256 else int v)"
    unfolding char_to_int_def Let_def v_def int_of_char by simp
  then show ?thesis using assms v unfolding v_def [symmetric] by (auto split: if_splits)
qed

lemma char_to_int_less:
  assumes "0 < char_to_int sg a" "0 < char_to_int sg b"
  shows "char_to_int sg a < char_to_int sg b \<longleftrightarrow> a < b"
  using char_to_int_pos [OF assms(1)] char_to_int_pos [OF assms(2)]
  by (simp add: less_char_def)

lemma take1_drop: "i < length s \<Longrightarrow> take (Suc 0) (drop i s) = [s ! i]"
  using Cons_nth_drop_Suc [of i s] by (metis take_Suc_Cons take_0)

lemma rank_inv_init:
  assumes "valid_text sg s"
  shows "rank_inv s 1 (map (char_to_int sg) s)"
  unfolding rank_inv_def
proof (intro conjI allI impI)
  show "length (map (char_to_int sg) s) = length s" by simp
  show "0 < map (char_to_int sg) s ! i" if "i < length s" for i
    using assms that unfolding valid_text_def by simp
  show "(map (char_to_int sg) s ! i < map (char_to_int sg) s ! j) =
        (take 1 (drop i s) < take 1 (drop j s))" if "i < length s" "j < length s" for i j
    using assms that char_to_int_less [of sg "s ! i" "s ! j"]
    unfolding valid_text_def by (simp add: take1_drop)
qed

lemma rank_inv_eq:
  assumes "rank_inv s k ra" "i < length s" "j < length s"
  shows "ra ! i = ra ! j \<longleftrightarrow> take k (drop i s) = take k (drop j s)"
proof -
  have a: "(ra ! i < ra ! j) = (take k (drop i s) < take k (drop j s))"
    and b: "(ra ! j < ra ! i) = (take k (drop j s) < take k (drop i s))"
    using assms unfolding rank_inv_def by auto
  show ?thesis using a b by (metis less_irrefl linorder_less_linear)
qed

lemma cmp_prefix:
  assumes inv: "rank_inv s k ra" and k: "0 < k" and n: "n = length s"
    and ij: "i < n" "j < n"
  shows "cmp n k ra i j = (take (k + k) (drop i s) < take (k + k) (drop j s))"
proof -
  have pos: "\<And>i. i < n \<Longrightarrow> 0 < ra ! i"
    and lt: "\<And>i j. i < n \<Longrightarrow> j < n \<Longrightarrow> (ra ! i < ra ! j) = (take k (drop i s) < take k (drop j s))"
    using inv n unfolding rank_inv_def by auto
  define r2 where "r2 = (\<lambda>i. if i + k < n then ra ! (i + k) else 0)"
  have ne: "take k (drop (i + k) s) \<noteq> []" if "i + k < n" for i
    using that k n by simp
  have em: "take k (drop (i + k) s) = []" if "\<not> i + k < n" for i
    using that n by simp
  have r2: "r2 i < r2 j \<longleftrightarrow> take k (drop (i + k) s) < take k (drop (j + k) s)"
  proof (cases "i + k < n")
    case True
    note i = this
    show ?thesis
    proof (cases "j + k < n")
      case True
      then show ?thesis using i lt [of "i + k" "j + k"] unfolding r2_def by simp
    next
      case False
      have "\<not> r2 i < r2 j" using i False pos [of "i + k"] unfolding r2_def by simp
      then show ?thesis unfolding em [OF False] by simp
    qed
  next
    case False
    note i = this
    show ?thesis
    proof (cases "j + k < n")
      case True
      have "[] < take k (drop (j + k) s)" using ne [OF True] by (cases "take k (drop (j + k) s)") auto
      moreover have "r2 i < r2 j" using i True pos [of "j + k"] unfolding r2_def by simp
      ultimately show ?thesis unfolding em [OF i] by simp
    next
      case False
      have "\<not> r2 i < r2 j" using i False unfolding r2_def by simp
      then show ?thesis unfolding em [OF False] by simp
    qed
  qed
  have "cmp n k ra i j \<longleftrightarrow> ra ! i < ra ! j \<or> (ra ! i = ra ! j \<and> r2 i < r2 j)"
    unfolding cmp_def r2_def Let_def by simp
  also have "\<dots> \<longleftrightarrow> take k (drop i s) < take k (drop j s) \<or>
      (take k (drop i s) = take k (drop j s) \<and>
       take k (drop k (drop i s)) < take k (drop k (drop j s)))"
    using lt [OF ij] rank_inv_eq [OF inv, of i j] ij n r2 by (simp add: add.commute)
  also have "\<dots> \<longleftrightarrow> take (k + k) (drop i s) < take (k + k) (drop j s)"
    using take_less_split [of k k "drop i s" "drop j s"] by simp
  finally show ?thesis .
qed

lemma build_iter_props:
  assumes srt: "sorts srt" and sa: "mset sa = mset [0..<n]"
    and ra: "length ra = n" and rb: "length rb = n" and n: "0 < n"
    and it: "build_iter srt n k (sa, ra, rb) = (sa', ra', rb')"
  shows "mset sa' = mset [0..<n]"
    and "sorted_wrt (\<lambda>a b. \<not> cmp n k ra b a) sa'"
    and "length ra' = n" and "rb' = ra'"
    and "\<And>p. p < n \<Longrightarrow> ra' ! (sa' ! p) = new_rank n k ra sa' p"
proof -
  have sa': "sa' = srt (cmp n k ra) sa"
    and rb': "rb' = rank_pass n k ra sa' rb"
    and ra': "ra' = copy_pass n sa' rb' ra"
    using it unfolding build_iter_def Let_def by auto
  have s: "mset (srt (cmp n k ra) sa) = mset sa"
    "sorted_wrt (\<lambda>a b. \<not> cmp n k ra b a) (srt (cmp n k ra) sa)"
    using srt strict_weak_cmp [of n k ra] unfolding sorts_def by blast+
  show p: "mset sa' = mset [0..<n]" using s(1) sa sa' by simp
  show "sorted_wrt (\<lambda>a b. \<not> cmp n k ra b a) sa'" using s(2) sa' by simp
  have lrb: "length rb' = n" unfolding rb' by (rule rank_pass_nth(1) [OF p rb n])
  show e: "rb' = ra'" unfolding ra' using copy_pass_eq [OF p lrb ra] by simp
  show "length ra' = n" using e lrb by simp
  show "ra' ! (sa' ! p) = new_rank n k ra sa' p" if "p < n" for p
    using rank_pass_nth(2) [OF p rb n that, of k ra] e rb' by simp
qed

lemma build_iter_rank_less:
  assumes srt: "sorts srt" and sa: "mset sa = mset [0..<n]"
    and ra: "length ra = n" and rb: "length rb = n" and n: "0 < n"
    and it: "build_iter srt n k (sa, ra, rb) = (sa', ra', rb')"
    and ij: "i < n" "j < n"
  shows "ra' ! i < ra' ! j \<longleftrightarrow> cmp n k ra i j" and "0 < ra' ! i"
proof -
  note P = build_iter_props [OF srt sa ra rb n it]
  note f = perm_upto_facts [OF P(1)]
  obtain p where p: "p < n" "sa' ! p = i"
    using ij(1) f(1,3) by (metis atLeastLessThan_iff in_set_conv_nth zero_le)
  obtain q where q: "q < n" "sa' ! q = j"
    using ij(2) f(1,3) by (metis atLeastLessThan_iff in_set_conv_nth zero_le)
  show "ra' ! i < ra' ! j \<longleftrightarrow> cmp n k ra i j"
    using new_rank_less_iff [OF P(2) f(1) p(1) q(1)] P(5) [OF p(1)] P(5) [OF q(1)] p(2) q(2)
    by simp
  show "0 < ra' ! i"
    using new_rank_bounds [of n k ra sa' p] P(5) [OF p(1)] p(2) by simp
qed

lemma build_iter_rank_inv:
  assumes srt: "sorts srt" and sa: "mset sa = mset [0..<n]"
    and inv: "rank_inv s k ra" and rb: "length rb = n" and n: "n = length s"
    and k: "0 < k" "k < n"
    and it: "build_iter srt n k (sa, ra, rb) = (sa', ra', rb')"
  shows "rank_inv s (2 * k) ra'"
    and "sorted_wrt (\<lambda>a b. take (2 * k) (drop a s) \<le> take (2 * k) (drop b s)) sa'"
proof -
  have ra: "length ra = n" using inv n unfolding rank_inv_def by simp
  have n0: "0 < n" using k by simp
  note P = build_iter_props [OF srt sa ra rb n0 it]
  note L = build_iter_rank_less [OF srt sa ra rb n0 it]
  note f = perm_upto_facts [OF P(1)]
  show "rank_inv s (2 * k) ra'"
    unfolding rank_inv_def mult_2
    using P(3) L cmp_prefix [OF inv k(1) n] n by auto
  have "\<not> cmp n k ra (sa' ! q) (sa' ! p)" if "p < q" "q < n" for p q
    using P(2) f(1) that by (simp add: sorted_wrt_iff_nth_less)
  then have "take (k + k) (drop (sa' ! p) s) \<le> take (k + k) (drop (sa' ! q) s)"
    if "p < q" "q < n" for p q
    using that cmp_prefix [OF inv k(1) n, of "sa' ! q" "sa' ! p"]
      perm_upto_nth [OF P(1), of p] perm_upto_nth [OF P(1), of q]
    by (simp add: not_less)
  then show "sorted_wrt (\<lambda>a b. take (2 * k) (drop a s) \<le> take (2 * k) (drop b s)) sa'"
    unfolding mult_2 using f(1) by (simp add: sorted_wrt_iff_nth_less)
qed

lemma new_rank_step_le: "p \<le> q \<Longrightarrow> new_rank n k ra sa q \<le> new_rank n k ra sa p + int (q - p)"
proof (induction q)
  case 0
  then show ?case by simp
next
  case (Suc q)
  show ?case
  proof (cases "p = Suc q")
    case True
    then show ?thesis by simp
  next
    case False
    then have "p \<le> q" using Suc.prems by simp
    then show ?thesis using Suc.IH by (auto simp: Suc_diff_le)
  qed
qed

lemma new_rank_full:
  assumes "new_rank n k ra sa (n - 1) = int n" "p < n"
  shows "new_rank n k ra sa p = int p + 1"
proof -
  have le: "p \<le> n - 1" using assms(2) by simp
  have "int n \<le> new_rank n k ra sa p + int (n - 1 - p)"
    using new_rank_step_le [OF le, of n k ra sa] assms(1) by simp
  moreover have "int (n - 1 - p) = int n - 1 - int p" using assms(2) by simp
  ultimately show ?thesis using new_rank_bounds [of n k ra sa p] by simp
qed

declare build_loop.simps [simp del] build_trace.simps [simp del]

lemma build_loop_stop: "\<not> (0 < k \<and> k < n) \<Longrightarrow> build_loop srt n k st = (k, st)"
  by (subst build_loop.simps) auto

lemma build_loop_break:
  "0 < k \<Longrightarrow> k < n \<Longrightarrow> build_iter srt n k st = (sa1, ra1, rb1) \<Longrightarrow>
   ra1 ! (sa1 ! (n - 1)) = int n \<Longrightarrow> build_loop srt n k st = (k, sa1, ra1, rb1)"
  by (subst build_loop.simps) simp

lemma build_loop_continue:
  "0 < k \<Longrightarrow> k < n \<Longrightarrow> build_iter srt n k st = (sa1, ra1, rb1) \<Longrightarrow>
   ra1 ! (sa1 ! (n - 1)) \<noteq> int n \<Longrightarrow>
   build_loop srt n k st = build_loop srt n (2 * k) (sa1, ra1, rb1)"
  by (subst build_loop.simps) simp

lemma build_loop_perm:
  "sorts srt \<Longrightarrow> mset sa = mset [0..<n] \<Longrightarrow> length ra = n \<Longrightarrow> length rb = n \<Longrightarrow>
   build_loop srt n k (sa, ra, rb) = (k', sa', ra', rb') \<Longrightarrow>
   mset sa' = mset [0..<n] \<and> length ra' = n \<and> length rb' = n"
proof (induction srt n k "(sa, ra, rb)" arbitrary: sa ra rb rule: build_loop.induct)
  case (1 srt n k)
  show ?case
  proof (cases "0 < k \<and> k < n")
    case False
    then show ?thesis using "1.prems" build_loop_stop [OF False, of srt "(sa, ra, rb)"] by simp
  next
    case True
    then have k: "0 < k" "k < n" by auto
    obtain sa1 ra1 rb1 where it: "build_iter srt n k (sa, ra, rb) = (sa1, ra1, rb1)"
      by (cases "build_iter srt n k (sa, ra, rb)") auto
    have n0: "0 < n" using True by simp
    note P = build_iter_props [OF "1.prems"(1) "1.prems"(2,3,4) n0 it]
    show ?thesis
    proof (cases "ra1 ! (sa1 ! (n - 1)) = int n")
      case True
      have "sa' = sa1" "ra' = ra1" "rb' = rb1"
        using "1.prems"(5) build_loop_break [OF k it True] by simp_all
      then show ?thesis using P(1,3,4) by simp
    next
      case False
      have "build_loop srt n (2 * k) (sa1, ra1, rb1) = (k', sa', ra', rb')"
        using "1.prems"(5) build_loop_continue [OF k it False] by simp
      then show ?thesis
        using "1.hyps" [OF True it [symmetric] refl False "1.prems"(1) P(1) P(3)] P(3,4) by simp
    qed
  qed
qed

lemma sorted_suffixes_of_prefix:
  assumes "sorted_wrt (\<lambda>a b. take m (drop a s) \<le> take m (drop b s)) sa" "length s \<le> m"
  shows "sorted_suffixes s sa"
  using assms unfolding sorted_suffixes_def by simp

lemma build_loop_sorted:
  assumes srt: "sorts srt" and n: "n = length s"
  shows "mset sa = mset [0..<n] \<Longrightarrow> rank_inv s k ra \<Longrightarrow> length rb = n \<Longrightarrow> 0 < k \<Longrightarrow>
         k < n \<or> sorted_suffixes s sa \<Longrightarrow>
         build_loop srt n k (sa, ra, rb) = (k', sa', ra', rb') \<Longrightarrow>
         sorted_suffixes s sa'"
  using srt n
proof (induction srt n k "(sa, ra, rb)" arbitrary: sa ra rb rule: build_loop.induct)
  case (1 srt n k)
  note srt = "1.prems"(7) and n = "1.prems"(8)
  show ?case
  proof (cases "0 < k \<and> k < n")
    case False
    then show ?thesis using "1.prems"(4,5,6) build_loop_stop [OF False, of srt "(sa, ra, rb)"] by simp
  next
    case True
    then have k: "0 < k" "k < n" by auto
    obtain sa1 ra1 rb1 where it: "build_iter srt n k (sa, ra, rb) = (sa1, ra1, rb1)"
      by (cases "build_iter srt n k (sa, ra, rb)") auto
    have n0: "0 < n" using True by simp
    have ra: "length ra = n" using "1.prems"(2) n unfolding rank_inv_def by simp
    note P = build_iter_props [OF srt "1.prems"(1) ra "1.prems"(3) n0 it]
    note Q = build_iter_rank_inv [OF srt "1.prems"(1,2,3) n k it]
    note f = perm_upto_facts [OF P(1)]
    show ?thesis
    proof (cases "ra1 ! (sa1 ! (n - 1)) = int n")
      case True
      then have res: "sa' = sa1"
        using "1.prems"(6) build_loop_break [OF k it True] by simp
      have top: "new_rank n k ra sa1 (n - 1) = int n"
        using P(5) [of "n - 1"] True n0 by simp
      have "drop (sa1 ! p) s < drop (sa1 ! q) s" if pq: "p < q" "q < n" for p q
      proof -
        have "new_rank n k ra sa1 p < new_rank n k ra sa1 q"
          using new_rank_full [OF top, of p] new_rank_full [OF top, of q] pq by simp
        then have "cmp n k ra (sa1 ! p) (sa1 ! q)"
          using new_rank_less_iff [OF P(2) f(1), of p q] pq by simp
        then have "take (k + k) (drop (sa1 ! p) s) < take (k + k) (drop (sa1 ! q) s)"
          using cmp_prefix [OF "1.prems"(2) k(1) n, of "sa1 ! p" "sa1 ! q"]
            perm_upto_nth [OF P(1), of p] perm_upto_nth [OF P(1), of q] pq by simp
        then show ?thesis by (rule take_less_imp_less)
      qed
      then show ?thesis unfolding res sorted_suffixes_def
        using f(1) by (simp add: sorted_wrt_iff_nth_less less_imp_le)
    next
      case False
      have rec: "build_loop srt n (2 * k) (sa1, ra1, rb1) = (k', sa', ra', rb')"
        using "1.prems"(6) build_loop_continue [OF k it False] by simp
      have rb1: "length rb1 = n" using P(3,4) by simp
      have "2 * k < n \<or> sorted_suffixes s sa1"
      proof (cases "2 * k < n")
        case True
        then show ?thesis by simp
      next
        case False
        then have "length s \<le> 2 * k" using n by simp
        from sorted_suffixes_of_prefix [OF Q(2) this] show ?thesis by simp
      qed
      then show ?thesis
        using "1.hyps" [OF True it [symmetric] refl False P(1) Q(1) rb1 _ _ rec srt n] k by simp
    qed
  qed
qed

lemma build_init:
  assumes "n = length s"
  shows "build srt sg s n (replicate n 0, replicate n 0, replicate n 0) =
         build_loop srt n 1 ([0..<n], map (char_to_int sg) s, replicate n 0)"
proof -
  have a: "fold (\<lambda>i sa. sa[i := i]) [0..<n] (replicate n 0) = [0..<n]"
    using fold_assign [of "replicate n 0" n "\<lambda>i. i"] by simp
  have "map (\<lambda>i. char_to_int sg (s ! i)) [0..<n] = map (char_to_int sg) s"
    unfolding assms by (rule nth_equalityI) simp_all
  then have b: "fold (\<lambda>i ra. ra[i := char_to_int sg (s ! i)]) [0..<n] (replicate n 0) =
        map (char_to_int sg) s"
    using fold_assign [of "replicate n 0" n "\<lambda>i. char_to_int sg (s ! i)"] by simp
  show ?thesis unfolding build_def by (simp add: a b)
qed

lemma SuffixArray_loop:
  assumes "build_loop srt (length s) 1 ([0..<length s], map (char_to_int sg) s, replicate (length s) 0)
           = (k', sa', ra', rb')"
  shows "SuffixArray srt sg s =
         \<lparr>this_s = s, this_n = length s, this_k = k', this_sa = sa', this_ra = ra', this_rb = rb'\<rparr>"
  unfolding SuffixArray_def Let_def build_init [OF refl] assms by simp

lemma SuffixArray_s [simp]: "this_s (SuffixArray srt sg s) = s"
  and SuffixArray_n [simp]: "this_n (SuffixArray srt sg s) = length s"
  unfolding SuffixArray_def Let_def by (simp_all split: prod.splits)

lemma SuffixArray_perm:
  assumes "sorts srt"
  shows "mset (this_sa (SuffixArray srt sg s)) = mset [0..<length s]"
proof -
  obtain k' sa' ra' rb' where r: "build_loop srt (length s) 1
      ([0..<length s], map (char_to_int sg) s, replicate (length s) 0) = (k', sa', ra', rb')"
    using prod_cases4 by blast
  have "mset sa' = mset [0..<length s]"
    using build_loop_perm [OF assms _ _ _ r] by simp
  then show ?thesis unfolding SuffixArray_loop [OF r] by simp
qed

lemma sorted_suffixes_upt: "sorted_suffixes s [0..<n]" if "n \<le> 1"
proof -
  have "[0..<n] = [] \<or> [0..<n] = [0]" using that by (cases n) auto
  then show ?thesis unfolding sorted_suffixes_def by auto
qed

lemma SuffixArray_sorted:
  assumes "sorts srt" "valid_text sg s"
  shows "sorted_suffixes s (this_sa (SuffixArray srt sg s))"
proof -
  obtain k' sa' ra' rb' where r: "build_loop srt (length s) 1
      ([0..<length s], map (char_to_int sg) s, replicate (length s) 0) = (k', sa', ra', rb')"
    using prod_cases4 by blast
  have "1 < length s \<or> sorted_suffixes s [0..<length s]"
    using sorted_suffixes_upt [of "length s" s] by (cases "1 < length s") auto
  then have "sorted_suffixes s sa'"
    using build_loop_sorted [OF assms(1) refl _ rank_inv_init [OF assms(2)] _ _ _ r] by simp
  then show ?thesis unfolding SuffixArray_loop [OF r] by simp
qed


section \<open>The doubling steps\<close>

lemma build_trace_stop: "\<not> (0 < k \<and> k < n) \<Longrightarrow> build_trace srt n k st = []"
  by (subst build_trace.simps) auto

lemma build_trace_break:
  "0 < k \<Longrightarrow> k < n \<Longrightarrow> build_iter srt n k st = (sa1, ra1, rb1) \<Longrightarrow>
   ra1 ! (sa1 ! (n - 1)) = int n \<Longrightarrow> build_trace srt n k st = [(k, st)]"
  by (subst build_trace.simps) simp

lemma build_trace_continue:
  "0 < k \<Longrightarrow> k < n \<Longrightarrow> build_iter srt n k st = (sa1, ra1, rb1) \<Longrightarrow>
   ra1 ! (sa1 ! (n - 1)) \<noteq> int n \<Longrightarrow>
   build_trace srt n k st = (k, st) # build_trace srt n (2 * k) (sa1, ra1, rb1)"
  by (subst build_trace.simps) simp

text \<open>The loop returns the state after the last doubling step.\<close>

lemma build_loop_trace:
  "snd (build_loop srt n k st) =
     (if build_trace srt n k st = [] then st
      else build_iter srt n (fst (last (build_trace srt n k st)))
              (snd (last (build_trace srt n k st))))"
proof (induction srt n k st rule: build_loop.induct)
  case (1 srt n k st)
  show ?case
  proof (cases "0 < k \<and> k < n")
    case False
    then show ?thesis using build_loop_stop [OF False] build_trace_stop [OF False] by simp
  next
    case True
    then have k: "0 < k" "k < n" by auto
    obtain sa1 ra1 rb1 where it: "build_iter srt n k st = (sa1, ra1, rb1)"
      by (cases "build_iter srt n k st") auto
    show ?thesis
    proof (cases "ra1 ! (sa1 ! (n - 1)) = int n")
      case True
      then show ?thesis
        using build_loop_break [OF k it True] build_trace_break [OF k it True] it by simp
    next
      case False
      note IH = "1.IH" [OF True it [symmetric] refl False]
      show ?thesis
        unfolding build_loop_continue [OF k it False] build_trace_continue [OF k it False] IH
        using it by simp
    qed
  qed
qed

lemma build_trace_invariant:
  "(k', st') \<in> set (build_trace srt n k st) \<Longrightarrow> P k st \<Longrightarrow>
   (\<forall>k st. P k st \<longrightarrow> 0 < k \<longrightarrow> k < n \<longrightarrow> P (2 * k) (build_iter srt n k st)) \<Longrightarrow>
   P k' st' \<and> 0 < k' \<and> k' < n"
proof (induction srt n k st rule: build_trace.induct)
  case (1 srt n k st)
  show ?case
  proof (cases "0 < k \<and> k < n")
    case False
    then show ?thesis using "1.prems"(1) build_trace_stop [OF False] by simp
  next
    case True
    then have k: "0 < k" "k < n" by auto
    obtain sa1 ra1 rb1 where it: "build_iter srt n k st = (sa1, ra1, rb1)"
      by (cases "build_iter srt n k st") auto
    show ?thesis
    proof (cases "ra1 ! (sa1 ! (n - 1)) = int n")
      case True
      then show ?thesis
        using "1.prems" build_trace_break [OF k it True] k by simp
    next
      case False
      have P2: "P (2 * k) (sa1, ra1, rb1)" using "1.prems"(2,3) k it by fastforce
      from "1.prems"(1) have "(k', st') = (k, st) \<or>
          (k', st') \<in> set (build_trace srt n (2 * k) (sa1, ra1, rb1))"
        unfolding build_trace_continue [OF k it False] by simp
      then show ?thesis
      proof
        assume "(k', st') = (k, st)"
        then show ?thesis using "1.prems"(2) k by simp
      next
        assume "(k', st') \<in> set (build_trace srt n (2 * k) (sa1, ra1, rb1))"
        from "1.IH" [OF True it [symmetric] refl False this P2 "1.prems"(3)] show ?thesis .
      qed
    qed
  qed
qed

lemma doubling_steps_init:
  "doubling_steps srt sg s =
     build_trace srt (length s) 1 ([0..<length s], map (char_to_int sg) s, replicate (length s) 0)"
proof -
  let ?n = "length s"
  have a: "fold (\<lambda>i sa. sa[i := i]) [0..<?n] (replicate ?n 0) = [0..<?n]"
    using fold_assign [of "replicate ?n 0" ?n "\<lambda>i. i"] by simp
  have "map (\<lambda>i. char_to_int sg (s ! i)) [0..<?n] = map (char_to_int sg) s"
    by (rule nth_equalityI) simp_all
  then have b: "fold (\<lambda>i ra. ra[i := char_to_int sg (s ! i)]) [0..<?n] (replicate ?n 0) =
        map (char_to_int sg) s"
    using fold_assign [of "replicate ?n 0" ?n "\<lambda>i. char_to_int sg (s ! i)"] by simp
  show ?thesis unfolding doubling_steps_def Let_def a b by simp
qed

lemma doubling_steps_shape:
  assumes srt: "sorts srt" and st: "(k, sa, ra, rb) \<in> set (doubling_steps srt sg s)"
  shows "mset sa = mset [0..<length s]" and "length ra = length s" and "length rb = length s"
    and "0 < k" and "k < length s" and "k = 1 \<or> (\<forall>i<length s. 0 < ra ! i)"
proof -
  let ?n = "length s"
  define P where "P = (\<lambda>(k::nat) (st :: nat list \<times> int list \<times> int list).
     case st of (sa, ra, rb) \<Rightarrow>
       mset sa = mset [0..<?n] \<and> length ra = ?n \<and> length rb = ?n \<and>
       (k = 1 \<or> (\<forall>i<?n. 0 < ra ! i)))"
  have init: "P 1 ([0..<?n], map (char_to_int sg) s, replicate ?n 0)"
    unfolding P_def by simp
  have step: "P (2 * k) (build_iter srt ?n k st)" if "P k st" "0 < k" "k < ?n" for k st
  proof -
    obtain sa ra rb where st: "st = (sa, ra, rb)" by (cases st) auto
    obtain sa1 ra1 rb1 where it: "build_iter srt ?n k (sa, ra, rb) = (sa1, ra1, rb1)"
      by (cases "build_iter srt ?n k (sa, ra, rb)") auto
    have p: "mset sa = mset [0..<?n]" "length ra = ?n" "length rb = ?n"
      using that(1) unfolding P_def st by auto
    have n0: "0 < ?n" using that(3) by (cases s) auto
    note Q = build_iter_props [OF srt p n0 it]
    note R = build_iter_rank_less(2) [OF srt p n0 it]
    show ?thesis unfolding st it P_def using Q(1,3,4) R by simp
  qed
  have "P k (sa, ra, rb) \<and> 0 < k \<and> k < ?n"
    using build_trace_invariant [of k "(sa, ra, rb)" srt ?n 1 _ P] st init step
    unfolding doubling_steps_init by blast
  then show "mset sa = mset [0..<length s]" and "length ra = length s" and "length rb = length s"
    and "0 < k" and "k < length s" and "k = 1 \<or> (\<forall>i<length s. 0 < ra ! i)"
    unfolding P_def by auto
qed

lemma doubling_steps_rank_inv:
  assumes srt: "sorts srt" and v: "valid_text sg s"
    and st: "(k, sa, ra, rb) \<in> set (doubling_steps srt sg s)"
  shows "rank_inv s k ra"
proof -
  let ?n = "length s"
  define P where "P = (\<lambda>(k::nat) (st :: nat list \<times> int list \<times> int list).
     case st of (sa, ra, rb) \<Rightarrow>
       mset sa = mset [0..<?n] \<and> length rb = ?n \<and> rank_inv s k ra)"
  have init: "P 1 ([0..<?n], map (char_to_int sg) s, replicate ?n 0)"
    unfolding P_def using rank_inv_init [OF v] by simp
  have step: "P (2 * k) (build_iter srt ?n k st)" if "P k st" "0 < k" "k < ?n" for k st
  proof -
    obtain sa ra rb where st: "st = (sa, ra, rb)" by (cases st) auto
    obtain sa1 ra1 rb1 where it: "build_iter srt ?n k (sa, ra, rb) = (sa1, ra1, rb1)"
      by (cases "build_iter srt ?n k (sa, ra, rb)") auto
    have p: "mset sa = mset [0..<?n]" "rank_inv s k ra" "length rb = ?n"
      using that(1) unfolding P_def st by auto
    have ra: "length ra = ?n" using p(2) unfolding rank_inv_def by simp
    have n0: "0 < ?n" using that(3) by (cases s) auto
    note Q = build_iter_props [OF srt p(1) ra p(3) n0 it]
    note R = build_iter_rank_inv(1) [OF srt p refl that(2,3) it]
    show ?thesis unfolding st it P_def using Q(1,3,4) R by simp
  qed
  have "P k (sa, ra, rb) \<and> 0 < k \<and> k < ?n"
    using build_trace_invariant [of k "(sa, ra, rb)" srt ?n 1 _ P] st init step
    unfolding doubling_steps_init by blast
  then show ?thesis unfolding P_def by simp
qed



subsection \<open>Equal ranks and equal prefixes, without the order\<close>

text \<open>
  That equal ranks mean equal prefixes needs less than the order of the ranks: the
  conversion of \<^verbatim>\<open>char\<close> to \<^verbatim>\<open>int\<close> is injective whatever the signedness, and it gives 0
  for NUL only. So in a text without NUL the initial ranks are told apart from the 0
  of a position past the end, and every iteration keeps this.
\<close>


lemma char_to_int_eq_0: "char_to_int sg c = 0 \<longleftrightarrow> c = CHR 0x00"
proof -
  define v :: nat where "v = of_char c"
  have v: "v < 256" unfolding v_def by simp
  have e: "char_to_int sg c = (if sg \<and> 128 \<le> int v then int v - 256 else int v)"
    unfolding char_to_int_def Let_def v_def int_of_char by simp
  have "v = 0 \<longleftrightarrow> c = CHR 0x00"
    unfolding v_def using of_char_eq_iff [of c "CHR 0x00", where ?'a = nat] by simp
  then show ?thesis using e v by (auto split: if_splits)
qed

lemma char_to_int_inj: "char_to_int sg a = char_to_int sg b \<longleftrightarrow> a = b"
proof -
  define v w :: nat where "v = of_char a" and "w = of_char b"
  have v: "v < 256" "w < 256" unfolding v_def w_def by simp_all
  have e: "char_to_int sg a = (if sg \<and> 128 \<le> int v then int v - 256 else int v)"
    "char_to_int sg b = (if sg \<and> 128 \<le> int w then int w - 256 else int w)"
    unfolding char_to_int_def Let_def v_def w_def int_of_char by simp_all
  have "v = w \<longleftrightarrow> a = b" unfolding v_def w_def by simp
  then show ?thesis using e v by (auto split: if_splits)
qed

lemma take_add_eq:
  "take (k + m) x = take (k + m) y \<longleftrightarrow>
   take k x = take k y \<and> take m (drop k x) = take m (drop k y)"
proof
  assume e: "take (k + m) x = take (k + m) y"
  have "take k (take (k + m) x) = take k (take (k + m) y)" using e by simp
  then have a: "take k x = take k y" by (simp add: min_def)
  have "drop k (take (k + m) x) = drop k (take (k + m) y)" using e by simp
  then have b: "take m (drop k x) = take m (drop k y)" by (simp add: drop_take)
  show "take k x = take k y \<and> take m (drop k x) = take m (drop k y)" using a b by simp
next
  assume "take k x = take k y \<and> take m (drop k x) = take m (drop k y)"
  then show "take (k + m) x = take (k + m) y" by (simp add: take_add)
qed

lemma rank_eq_inv_init:
  assumes "CHR 0x00 \<notin> set s"
  shows "rank_eq_inv s 1 (map (char_to_int sg) s)"
  unfolding rank_eq_inv_def
proof (intro conjI allI impI)
  show "length (map (char_to_int sg) s) = length s" by simp
  show "map (char_to_int sg) s ! i \<noteq> 0" if "i < length s" for i
  proof -
    have "s ! i \<noteq> CHR 0x00" using assms nth_mem [OF that] by metis
    then show ?thesis using that by (simp add: char_to_int_eq_0)
  qed
  show "(map (char_to_int sg) s ! i = map (char_to_int sg) s ! j) =
        (take 1 (drop i s) = take 1 (drop j s))" if "i < length s" "j < length s" for i j
    using that by (simp add: take1_drop char_to_int_inj)
qed

lemma cmp_equiv_prefix:
  assumes inv: "rank_eq_inv s k ra" and k: "0 < k" and n: "n = length s"
    and ij: "i < n" "j < n"
  shows "(\<not> cmp n k ra i j \<and> \<not> cmp n k ra j i) =
         (take (k + k) (drop i s) = take (k + k) (drop j s))"
proof -
  have nz: "\<And>i. i < n \<Longrightarrow> ra ! i \<noteq> 0"
    and eq: "\<And>i j. i < n \<Longrightarrow> j < n \<Longrightarrow> (ra ! i = ra ! j) = (take k (drop i s) = take k (drop j s))"
    using inv n unfolding rank_eq_inv_def by auto
  define r2 where "r2 = (\<lambda>i. if i + k < n then ra ! (i + k) else 0)"
  have ne: "take k (drop (i + k) s) \<noteq> []" if "i + k < n" for i
    using that k n by simp
  have em: "take k (drop (i + k) s) = []" if "\<not> i + k < n" for i
    using that n by simp
  have r2: "r2 i = r2 j \<longleftrightarrow> take k (drop (i + k) s) = take k (drop (j + k) s)"
  proof (cases "i + k < n")
    case True
    note i = this
    show ?thesis
    proof (cases "j + k < n")
      case True
      then show ?thesis using i eq [of "i + k" "j + k"] unfolding r2_def by simp
    next
      case False
      have "r2 i \<noteq> r2 j" using i False nz [of "i + k"] unfolding r2_def by simp
      then show ?thesis unfolding em [OF False] using ne [OF i] by simp
    qed
  next
    case False
    note i = this
    show ?thesis
    proof (cases "j + k < n")
      case True
      have "r2 i \<noteq> r2 j" using i True nz [of "j + k"] unfolding r2_def by simp
      then show ?thesis unfolding em [OF i] using ne [OF True] by auto
    next
      case False
      have "r2 i = r2 j" using i False unfolding r2_def by simp
      then show ?thesis unfolding em [OF False] em [OF i] by simp
    qed
  qed
  have "(\<not> cmp n k ra i j \<and> \<not> cmp n k ra j i) \<longleftrightarrow> ra ! i = ra ! j \<and> r2 i = r2 j"
    unfolding cmp_def r2_def Let_def by auto
  also have "\<dots> \<longleftrightarrow> take k (drop i s) = take k (drop j s) \<and>
       take k (drop k (drop i s)) = take k (drop k (drop j s))"
    using eq [OF ij] r2 by (simp add: add.commute)
  also have "\<dots> \<longleftrightarrow> take (k + k) (drop i s) = take (k + k) (drop j s)"
    using take_add_eq [of k k "drop i s" "drop j s"] by simp
  finally show ?thesis .
qed

lemma build_iter_rank_eq_inv:
  assumes srt: "sorts srt" and sa: "mset sa = mset [0..<n]"
    and inv: "rank_eq_inv s k ra" and rb: "length rb = n" and n: "n = length s"
    and k: "0 < k" "k < n"
    and it: "build_iter srt n k (sa, ra, rb) = (sa', ra', rb')"
  shows "rank_eq_inv s (2 * k) ra'"
proof -
  have ra: "length ra = n" using inv n unfolding rank_eq_inv_def by simp
  have n0: "0 < n" using k by simp
  note P = build_iter_props [OF srt sa ra rb n0 it]
  note L = build_iter_rank_less [OF srt sa ra rb n0 it]
  have "(ra' ! i = ra' ! j) = (take (k + k) (drop i s) = take (k + k) (drop j s))"
    if "i < n" "j < n" for i j
  proof -
    have "(ra' ! i = ra' ! j) \<longleftrightarrow> \<not> ra' ! i < ra' ! j \<and> \<not> ra' ! j < ra' ! i" by auto
    also have "\<dots> \<longleftrightarrow> \<not> cmp n k ra i j \<and> \<not> cmp n k ra j i"
      using L(1) [OF that] L(1) [OF that(2,1)] by simp
    finally show ?thesis using cmp_equiv_prefix [OF inv k(1) n that] by simp
  qed
  moreover have "ra' ! i \<noteq> 0" if "i < n" for i using L(2) [OF that that] by simp
  ultimately show ?thesis unfolding rank_eq_inv_def mult_2 using P(3) n by simp
qed

lemma doubling_steps_rank_eq_inv:
  assumes srt: "sorts srt" and v: "CHR 0x00 \<notin> set s"
    and st: "(k, sa, ra, rb) \<in> set (doubling_steps srt sg s)"
  shows "rank_eq_inv s k ra"
proof -
  let ?n = "length s"
  define P where "P = (\<lambda>(k::nat) (st :: nat list \<times> int list \<times> int list).
     case st of (sa, ra, rb) \<Rightarrow>
       mset sa = mset [0..<?n] \<and> length rb = ?n \<and> rank_eq_inv s k ra)"
  have init: "P 1 ([0..<?n], map (char_to_int sg) s, replicate ?n 0)"
    unfolding P_def using rank_eq_inv_init [OF v] by simp
  have step: "P (2 * k) (build_iter srt ?n k st)" if "P k st" "0 < k" "k < ?n" for k st
  proof -
    obtain sa ra rb where st: "st = (sa, ra, rb)" by (cases st) auto
    obtain sa1 ra1 rb1 where it: "build_iter srt ?n k (sa, ra, rb) = (sa1, ra1, rb1)"
      by (cases "build_iter srt ?n k (sa, ra, rb)") auto
    have p: "mset sa = mset [0..<?n]" "rank_eq_inv s k ra" "length rb = ?n"
      using that(1) unfolding P_def st by auto
    have ra: "length ra = ?n" using p(2) unfolding rank_eq_inv_def by simp
    have n0: "0 < ?n" using that(3) by (cases s) auto
    note Q = build_iter_props [OF srt p(1) ra p(3) n0 it]
    note R = build_iter_rank_eq_inv [OF srt p refl that(2,3) it]
    show ?thesis unfolding st it P_def using Q(1,3,4) R by simp
  qed
  have "P k (sa, ra, rb) \<and> 0 < k \<and> k < ?n"
    using build_trace_invariant [of k "(sa, ra, rb)" srt ?n 1 _ P] st init step
    unfolding doubling_steps_init by blast
  then show ?thesis unfolding P_def by simp
qed

section \<open>The binary searches of \<^verbatim>\<open>find\<close>\<close>

declare lower_bound_loop.simps [simp del] upper_bound_loop.simps [simp del]
  collect_loop.simps [simp del] lcp_extend.simps [simp del]

lemma SuffixArray_wf: "sorts srt \<Longrightarrow> wf_index (SuffixArray srt sg s)"
  unfolding wf_index_def using SuffixArray_perm [of srt sg s] by simp

lemma wf_index_facts:
  assumes "wf_index t"
  shows "length (this_sa t) = this_n t" and "this_n t = length (this_s t)"
    and "i < this_n t \<Longrightarrow> this_sa t ! i < this_n t"
    and "set (this_sa t) = {0..<this_n t}" and "distinct (this_sa t)"
  using assms perm_upto_facts [of "this_sa t" "this_n t"] perm_upto_nth [of "this_sa t" "this_n t" i]
  unfolding wf_index_def by auto

lemma probe_in_range:
  assumes wf: "wf_index t" and mi: "0 \<le> mi" "mi < int (this_n t)"
  shows "vec_at (this_sa t) mi = Inr (this_sa t ! nat mi)"
    and "str_compare (this_s t) (this_sa t ! nat mi) m p =
           Inr (if window t m (nat mi) < p then - 1 else if window t m (nat mi) = p then 0 else 1)"
proof -
  note f = wf_index_facts [OF wf]
  show "vec_at (this_sa t) mi = Inr (this_sa t ! nat mi)"
    unfolding vec_at_def using mi f(1) by simp
  have "this_sa t ! nat mi < length (this_s t)" using f(3) [of "nat mi"] f(2) mi by simp
  then show "str_compare (this_s t) (this_sa t ! nat mi) m p =
           Inr (if window t m (nat mi) < p then - 1 else if window t m (nat mi) = p then 0 else 1)"
    unfolding str_compare_def window_def Let_def by simp
qed

lemma lower_bound_loop_spec:
  assumes wf: "wf_index t"
    and mono: "\<forall>i j. i \<le> j \<and> j < this_n t \<longrightarrow> window t (length p) i \<le> window t (length p) j"
  shows "0 \<le> lo \<Longrightarrow> lo \<le> hi \<Longrightarrow> hi \<le> int (this_n t) \<Longrightarrow>
         (\<forall>i. int i < lo \<longrightarrow> window t (length p) i < p) \<Longrightarrow>
         (\<forall>i. hi \<le> int i \<and> i < this_n t \<longrightarrow> \<not> window t (length p) i < p) \<Longrightarrow>
         \<exists>r. lower_bound_loop t p lo hi = Inr r \<and> 0 \<le> r \<and> r \<le> int (this_n t) \<and>
           (\<forall>i. int i < r \<longrightarrow> window t (length p) i < p) \<and>
           (\<forall>i. r \<le> int i \<and> i < this_n t \<longrightarrow> \<not> window t (length p) i < p)"
  using wf mono
proof (induction t p lo hi rule: lower_bound_loop.induct)
  case (1 t p lo hi)
  note wf = "1.prems"(6) and mono = "1.prems"(7)
  show ?case
  proof (cases "lo < hi")
    case False
    then have "lower_bound_loop t p lo hi = Inr lo" by (subst lower_bound_loop.simps) simp
    then show ?thesis using "1.prems" False by auto
  next
    case True
    define mi where "mi = (lo + hi) div 2"
    have mi: "lo \<le> mi" "mi < hi" "0 \<le> mi" "mi < int (this_n t)"
      using True "1.prems"(1,3) unfolding mi_def by auto
    note pr = probe_in_range(1) [OF wf mi(3,4)]
      probe_in_range(2) [OF wf mi(3,4), where m = "length p" and p = p]
    show ?thesis
    proof (cases "window t (length p) (nat mi) < p")
      case True
      then have c: "str_compare (this_s t) (this_sa t ! nat mi) (length p) p = Inr (- 1)"
        using pr(2) by simp
      have eq: "lower_bound_loop t p lo hi = lower_bound_loop t p (mi + 1) hi"
        using \<open>lo < hi\<close> pr(1) c
        by (subst lower_bound_loop.simps) (simp add: mi_def [symmetric] Let_def)
      have below: "\<forall>i. int i < mi + 1 \<longrightarrow> window t (length p) i < p"
      proof (intro allI impI)
        fix i assume "int i < mi + 1"
        then have "i \<le> nat mi" "nat mi < this_n t" using mi by auto
        then have "window t (length p) i \<le> window t (length p) (nat mi)" using mono by blast
        then show "window t (length p) i < p" using True by simp
      qed
      have "0 \<le> mi + 1" "mi + 1 \<le> hi" using mi by auto
      from "1.IH"(1) [OF \<open>lo < hi\<close> mi_def pr(1) c _ this "1.prems"(3) below "1.prems"(5) wf mono]
      show ?thesis unfolding eq by simp
    next
      case False
      then have c: "str_compare (this_s t) (this_sa t ! nat mi) (length p) p =
          Inr (if window t (length p) (nat mi) = p then 0 else 1)"
        using pr(2) by simp
      have eq: "lower_bound_loop t p lo hi = lower_bound_loop t p lo mi"
        using \<open>lo < hi\<close> pr(1) c
        by (subst lower_bound_loop.simps) (simp add: mi_def [symmetric] Let_def)
      have above: "\<forall>i. mi \<le> int i \<and> i < this_n t \<longrightarrow> \<not> window t (length p) i < p"
      proof (intro allI impI)
        fix i assume i: "mi \<le> int i \<and> i < this_n t"
        then have "nat mi \<le> i" "i < this_n t" using mi by auto
        then have "window t (length p) (nat mi) \<le> window t (length p) i" using mono by blast
        then show "\<not> window t (length p) i < p" using False by simp
      qed
      have "mi \<le> int (this_n t)" using mi by simp
      from "1.IH"(2) [OF \<open>lo < hi\<close> mi_def pr(1) c _ "1.prems"(1) mi(1) this "1.prems"(4) above wf mono]
      show ?thesis unfolding eq by simp
    qed
  qed
qed

lemma upper_bound_loop_spec:
  assumes wf: "wf_index t"
    and mono: "\<forall>i j. i \<le> j \<and> j < this_n t \<longrightarrow> window t (length p) i \<le> window t (length p) j"
  shows "- 1 \<le> lo \<Longrightarrow> lo \<le> hi \<Longrightarrow> hi < int (this_n t) \<Longrightarrow>
         (\<forall>i. int i \<le> lo \<longrightarrow> window t (length p) i \<le> p) \<Longrightarrow>
         (\<forall>i. hi < int i \<and> i < this_n t \<longrightarrow> p < window t (length p) i) \<Longrightarrow>
         \<exists>r. upper_bound_loop t p lo hi = Inr r \<and> - 1 \<le> r \<and> r < int (this_n t) \<and>
           (\<forall>i. int i \<le> r \<longrightarrow> window t (length p) i \<le> p) \<and>
           (\<forall>i. r < int i \<and> i < this_n t \<longrightarrow> p < window t (length p) i)"
  using wf mono
proof (induction t p lo hi rule: upper_bound_loop.induct)
  case (1 t p lo hi)
  note wf = "1.prems"(6) and mono = "1.prems"(7)
  show ?case
  proof (cases "lo < hi")
    case False
    then have "upper_bound_loop t p lo hi = Inr hi" by (subst upper_bound_loop.simps) simp
    then show ?thesis using "1.prems" False by auto
  next
    case True
    define mi where "mi = (lo + hi + 1) div 2"
    have mi: "lo < mi" "mi \<le> hi" "0 \<le> mi" "mi < int (this_n t)"
      using True "1.prems"(1,3) unfolding mi_def by auto
    note pr = probe_in_range(1) [OF wf mi(3,4)]
      probe_in_range(2) [OF wf mi(3,4), where m = "length p" and p = p]
    show ?thesis
    proof (cases "p < window t (length p) (nat mi)")
      case True
      then have c: "str_compare (this_s t) (this_sa t ! nat mi) (length p) p = Inr 1"
        using pr(2) by auto
      have eq: "upper_bound_loop t p lo hi = upper_bound_loop t p lo (mi - 1)"
        using \<open>lo < hi\<close> pr(1) c
        by (subst upper_bound_loop.simps) (simp add: mi_def [symmetric] Let_def)
      have above: "\<forall>i. mi - 1 < int i \<and> i < this_n t \<longrightarrow> p < window t (length p) i"
      proof (intro allI impI)
        fix i assume i: "mi - 1 < int i \<and> i < this_n t"
        then have "nat mi \<le> i" "i < this_n t" using mi by auto
        then have "window t (length p) (nat mi) \<le> window t (length p) i" using mono by blast
        then show "p < window t (length p) i" using True by simp
      qed
      have "lo \<le> mi - 1" "mi - 1 < int (this_n t)" using mi by auto
      from "1.IH"(1) [OF \<open>lo < hi\<close> mi_def pr(1) c _ "1.prems"(1) this "1.prems"(4) above wf mono]
      show ?thesis unfolding eq by simp
    next
      case False
      then have c: "str_compare (this_s t) (this_sa t ! nat mi) (length p) p =
          Inr (if window t (length p) (nat mi) < p then - 1 else 0)"
        using pr(2) by auto
      have eq: "upper_bound_loop t p lo hi = upper_bound_loop t p mi hi"
        using \<open>lo < hi\<close> pr(1) c
        by (subst upper_bound_loop.simps) (simp add: mi_def [symmetric] Let_def)
      have below: "\<forall>i. int i \<le> mi \<longrightarrow> window t (length p) i \<le> p"
      proof (intro allI impI)
        fix i assume "int i \<le> mi"
        then have "i \<le> nat mi" "nat mi < this_n t" using mi by auto
        then have "window t (length p) i \<le> window t (length p) (nat mi)" using mono by blast
        then show "window t (length p) i \<le> p" using False by simp
      qed
      have "- 1 \<le> mi" using mi by simp
      from "1.IH"(2) [OF \<open>lo < hi\<close> mi_def pr(1) c _ this mi(2) "1.prems"(3) below "1.prems"(5) wf mono]
      show ?thesis unfolding eq by simp
    qed
  qed
qed

lemma collect_loop_spec:
  "0 \<le> i \<Longrightarrow> hi < int (length (this_sa t)) \<Longrightarrow>
   collect_loop t i hi pos = Inr (pos @ map (\<lambda>j. this_sa t ! j) [nat i..<nat (hi + 1)])"
proof (induction t i hi pos rule: collect_loop.induct)
  case (1 t i hi pos)
  show ?case
  proof (cases "i \<le> hi")
    case False
    then have "collect_loop t i hi pos = Inr pos" by (subst collect_loop.simps) simp
    then show ?thesis using False by simp
  next
    case True
    have v: "vec_at (this_sa t) i = Inr (this_sa t ! nat i)"
      unfolding vec_at_def using True "1.prems" by simp
    have eq: "collect_loop t i hi pos = collect_loop t (i + 1) hi (pos @ [this_sa t ! nat i])"
      using True v by (subst collect_loop.simps) simp
    have "0 \<le> i + 1" using "1.prems" by simp
    note IH = "1.IH" [OF True v this "1.prems"(2)]
    have a: "nat (hi + 1) = Suc (nat hi)" "nat (i + 1) = Suc (nat i)" "nat i < Suc (nat hi)"
      using True "1.prems"(1) by auto
    have "[nat i..<nat (hi + 1)] = nat i # [nat (i + 1)..<nat (hi + 1)]"
      unfolding a(1,2) using upt_conv_Cons [OF a(3)] .
    then show ?thesis unfolding eq IH by simp
  qed
qed

lemma filter_upt_interval:
  assumes "\<And>i. i < n \<Longrightarrow> P i \<longleftrightarrow> a \<le> i \<and> i < b" and "b \<le> n"
  shows "filter P [0..<n] = [a..<b]"
proof (rule sorted_distinct_set_unique)
  show "sorted (filter P [0..<n])" by (simp add: sorted_wrt_filter)
  show "distinct (filter P [0..<n])" by simp
  show "sorted [a..<b]" "distinct [a..<b]" by simp_all
  show "set (filter P [0..<n]) = set [a..<b]" using assms by auto
qed

lemma find_sa_spec:
  assumes wf: "wf_index t"
    and mono: "\<forall>i j. i \<le> j \<and> j < this_n t \<longrightarrow> window t (length p) i \<le> window t (length p) j"
  shows "find_sa t p =
     (if \<forall>i<this_n t. window t (length p) i < p then Inl OutOfBounds
      else Inr (map (\<lambda>i. this_sa t ! i)
                  (filter (\<lambda>i. window t (length p) i = p) [0..<this_n t])))"
proof -
  let ?n = "this_n t" and ?w = "window t (length p)"
  note f = wf_index_facts [OF wf]
  have "\<exists>r. lower_bound_loop t p 0 (int ?n) = Inr r \<and> 0 \<le> r \<and> r \<le> int ?n \<and>
           (\<forall>i. int i < r \<longrightarrow> ?w i < p) \<and> (\<forall>i. r \<le> int i \<and> i < ?n \<longrightarrow> \<not> ?w i < p)"
    by (rule lower_bound_loop_spec [OF wf mono]) auto
  then obtain r1 where r1: "lower_bound_loop t p 0 (int ?n) = Inr r1" "0 \<le> r1" "r1 \<le> int ?n"
      "\<And>i. int i < r1 \<Longrightarrow> ?w i < p" "\<And>i. r1 \<le> int i \<Longrightarrow> i < ?n \<Longrightarrow> \<not> ?w i < p"
    by blast
  show ?thesis
  proof (cases "\<forall>i<?n. ?w i < p")
    case True
    have "r1 = int ?n"
    proof (rule ccontr)
      assume "r1 \<noteq> int ?n"
      then have "nat r1 < ?n" "r1 \<le> int (nat r1)" using r1(2,3) by auto
      then show False using r1(5) [of "nat r1"] True by blast
    qed
    then have "vec_at (this_sa t) r1 = Inl OutOfBounds" unfolding vec_at_def using f(1) by simp
    then show ?thesis unfolding find_sa_def Let_def r1(1) using True by simp
  next
    case False
    then obtain i0 where i0: "i0 < ?n" "\<not> ?w i0 < p" by blast
    have lt: "r1 < int ?n" using r1(4) [of i0] i0 by (cases "int i0 < r1") auto
    note pr = probe_in_range(1) [OF wf r1(2) lt]
      probe_in_range(2) [OF wf r1(2) lt, where m = "length p" and p = p]
    have ge: "\<not> ?w (nat r1) < p" using r1(5) [of "nat r1"] r1(2) lt by simp
    show ?thesis
    proof (cases "?w (nat r1) = p")
      case False
      then have gt: "p < ?w (nat r1)" using ge by simp
      have "?w i \<noteq> p" if "i < ?n" for i
      proof (cases "int i < r1")
        case True
        then show ?thesis using r1(4) [of i] by simp
      next
        case False
        then have "nat r1 \<le> i" using r1(2) by simp
        then have "?w (nat r1) \<le> ?w i" using mono that by blast
        then show ?thesis using gt by auto
      qed
      then have "filter (\<lambda>i. ?w i = p) [0..<?n] = []" by (simp add: filter_empty_conv)
      moreover have "find_sa t p = Inr []"
        unfolding find_sa_def Let_def r1(1) using pr False ge by simp
      ultimately show ?thesis using \<open>\<not> (\<forall>i<?n. ?w i < p)\<close> by simp
    next
      case True
      have n0: "- 1 < int ?n" by simp
      have "\<exists>r. upper_bound_loop t p (- 1) (int ?n - 1) = Inr r \<and> - 1 \<le> r \<and> r < int ?n \<and>
           (\<forall>i. int i \<le> r \<longrightarrow> ?w i \<le> p) \<and> (\<forall>i. r < int i \<and> i < ?n \<longrightarrow> p < ?w i)"
        using lt r1(2) by (intro upper_bound_loop_spec [OF wf mono]) auto
      then obtain r2 where r2: "upper_bound_loop t p (- 1) (int ?n - 1) = Inr r2" "- 1 \<le> r2" "r2 < int ?n"
          "\<And>i. int i \<le> r2 \<Longrightarrow> ?w i \<le> p" "\<And>i. r2 < int i \<Longrightarrow> i < ?n \<Longrightarrow> p < ?w i"
        by blast
      have r12: "r1 \<le> r2"
      proof (rule ccontr)
        assume "\<not> r1 \<le> r2"
        then have "p < ?w (nat r1)" using r2(5) [of "nat r1"] lt r1(2) by simp
        then show False using True by simp
      qed
      have col: "collect_loop t r1 r2 [] =
          Inr (map (\<lambda>j. this_sa t ! j) [nat r1..<nat (r2 + 1)])"
        using collect_loop_spec [OF r1(2), of r2 t "[]"] r2(3) f(1) by simp
      have "?w i = p \<longleftrightarrow> nat r1 \<le> i \<and> i < nat (r2 + 1)" if "i < ?n" for i
      proof
        assume e: "?w i = p"
        have "\<not> int i < r1" using r1(4) [of i] e by auto
        moreover have "\<not> r2 < int i" using r2(5) [OF _ that] e by auto
        ultimately show "nat r1 \<le> i \<and> i < nat (r2 + 1)" by auto
      next
        assume "nat r1 \<le> i \<and> i < nat (r2 + 1)"
        then have "r1 \<le> int i" "int i \<le> r2" by auto
        then show "?w i = p" using r1(5) [OF _ that] r2(4) [of i] by auto
      qed
      moreover have "nat (r2 + 1) \<le> ?n" using r2(2,3) by auto
      ultimately have "filter (\<lambda>i. ?w i = p) [0..<?n] = [nat r1..<nat (r2 + 1)]"
        by (rule filter_upt_interval)
      moreover have "find_sa t p = Inr (map (\<lambda>j. this_sa t ! j) [nat r1..<nat (r2 + 1)])"
        unfolding find_sa_def Let_def r1(1) using pr True r2(1) col by simp
      ultimately show ?thesis using \<open>\<not> (\<forall>i<?n. ?w i < p)\<close> by simp
    qed
  qed
qed

lemma find_sa_set:
  assumes wf: "wf_index t"
  shows "(\<lambda>i. this_sa t ! i) ` {i. i < this_n t \<and> window t (length p) i = p} =
         occurrences (this_s t) p"
proof -
  note f = wf_index_facts [OF wf]
  show ?thesis
  proof (intro equalityI subsetI)
    fix k assume "k \<in> (\<lambda>i. this_sa t ! i) ` {i. i < this_n t \<and> window t (length p) i = p}"
    then obtain i where i: "k = this_sa t ! i" "i < this_n t" "window t (length p) i = p" by auto
    then show "k \<in> occurrences (this_s t) p"
      unfolding occurrences_def window_def using f(3) [of i] f(2) by simp
  next
    fix k assume "k \<in> occurrences (this_s t) p"
    then have k: "k < this_n t" "take (length p) (drop k (this_s t)) = p"
      unfolding occurrences_def using f(2) by auto
    then obtain i where i: "i < this_n t" "this_sa t ! i = k"
      using f(1,4) by (metis atLeastLessThan_iff in_set_conv_nth zero_le)
    then show "k \<in> (\<lambda>i. this_sa t ! i) ` {i. i < this_n t \<and> window t (length p) i = p}"
      using k(2) unfolding window_def by force
  qed
qed

lemma window_mono_sorted:
  assumes wf: "wf_index t" and so: "sorted_suffixes (this_s t) (this_sa t)"
  shows "\<forall>i j. i \<le> j \<and> j < this_n t \<longrightarrow> window t m i \<le> window t m j"
proof (intro allI impI)
  fix i j assume ij: "i \<le> j \<and> j < this_n t"
  note f = wf_index_facts [OF wf]
  have "drop (this_sa t ! i) (this_s t) \<le> drop (this_sa t ! j) (this_s t)"
  proof (cases "i = j")
    case True
    then show ?thesis by simp
  next
    case False
    then have "i < j" using ij by simp
    then show ?thesis using so ij f(1) unfolding sorted_suffixes_def
      by (simp add: sorted_wrt_iff_nth_less)
  qed
  then show "window t m i \<le> window t m j" unfolding window_def by (rule take_mono_le)
qed

lemma window_mono_empty:
  "\<forall>i j. i \<le> j \<and> j < this_n t \<longrightarrow> window t (length ([]::string)) i \<le> window t (length ([]::string)) j"
  unfolding window_def by simp

lemma SuffixArray_short:
  assumes "length s \<le> 1"
  shows "SuffixArray srt sg s =
     \<lparr>this_s = s, this_n = length s, this_k = 1, this_sa = [0..<length s],
      this_ra = map (char_to_int sg) s, this_rb = replicate (length s) 0\<rparr>"
proof -
  have "\<not> (0 < (1::nat) \<and> 1 < length s)" using assms by simp
  from build_loop_stop [OF this] show ?thesis by (intro SuffixArray_loop) simp
qed

lemma SuffixArray_Nil:
  "SuffixArray srt sg [] =
     \<lparr>this_s = [], this_n = 0, this_k = 1, this_sa = [], this_ra = [], this_rb = []\<rparr>"
  using SuffixArray_short [of "[]" srt sg] by simp

lemma SuffixArray_single:
  "SuffixArray srt sg [c] =
     \<lparr>this_s = [c], this_n = 1, this_k = 1, this_sa = [0],
      this_ra = [char_to_int sg c], this_rb = [0]\<rparr>"
  using SuffixArray_short [of "[c]" srt sg] by simp


section \<open>The loops of \<^verbatim>\<open>findLCP\<close>\<close>

lemma lcpl_le: "lcpl a b \<le> length a \<and> lcpl a b \<le> length b"
  by (induction a b rule: lcpl.induct) auto

lemma lcpl_sym: "lcpl a b = lcpl b a"
proof (induction a arbitrary: b)
  case Nil
  then show ?case by (cases b) auto
next
  case (Cons x a)
  then show ?case by (cases b) auto
qed

lemma lcpl_nth: "L < lcpl a b \<Longrightarrow> a ! L = b ! L"
proof (induction a b arbitrary: L rule: lcpl.induct)
  case (1 x xs y ys)
  then show ?case by (cases L) (auto split: if_splits)
qed auto

lemma lcpl_mismatch:
  "lcpl a b < length a \<Longrightarrow> lcpl a b < length b \<Longrightarrow> a ! lcpl a b \<noteq> b ! lcpl a b"
  by (induction a b rule: lcpl.induct) auto

lemma lcpl_between:
  fixes a b c :: "'a::linorder list"
  shows "a \<le> b \<Longrightarrow> b \<le> c \<Longrightarrow> lcpl a c \<le> lcpl b c"
proof (induction a c arbitrary: b rule: lcpl.induct)
  case (1 x xs y ys)
  show ?case
  proof (cases "x = y")
    case False
    then show ?thesis by simp
  next
    case True
    obtain z zs where b: "b = z # zs" using "1.prems"(1) by (cases b) auto
    have "z = x" using "1.prems" True unfolding b by auto
    then have "xs \<le> zs" "zs \<le> ys" using "1.prems" True unfolding b by auto
    from "1.IH" [OF True this] show ?thesis using True \<open>z = x\<close> unfolding b by simp
  qed
qed auto

lemma lcpl_drop_pos:
  assumes "0 < lcpl (drop i s) (drop j s)"
  shows "i < length s" and "j < length s" and "s ! i = s ! j"
    and "lcpl (drop i s) (drop j s) = Suc (lcpl (drop (Suc i) s) (drop (Suc j) s))"
proof -
  show i: "i < length s" using assms lcpl_le [of "drop i s" "drop j s"] by auto
  show j: "j < length s" using assms lcpl_le [of "drop i s" "drop j s"] by auto
  have d: "drop i s = s ! i # drop (Suc i) s" "drop j s = s ! j # drop (Suc j) s"
    using i j by (simp_all add: Cons_nth_drop_Suc)
  show e: "s ! i = s ! j" using assms unfolding d by (auto split: if_splits)
  show "lcpl (drop i s) (drop j s) = Suc (lcpl (drop (Suc i) s) (drop (Suc j) s))"
    using e by (subst d(1), subst d(2)) simp
qed

lemma less_drop_Suc:
  fixes s :: "'a::linorder list"
  assumes "drop j s < drop i s" "i < length s" "j < length s" "s ! i = s ! j"
  shows "drop (Suc j) s < drop (Suc i) s"
proof -
  have d: "drop i s = s ! i # drop (Suc i) s" "drop j s = s ! j # drop (Suc j) s"
    using assms(2,3) by (simp_all add: Cons_nth_drop_Suc)
  show ?thesis using assms(1,4) unfolding d by simp
qed

lemma drop_neq: "i < length s \<Longrightarrow> i \<noteq> j \<Longrightarrow> drop i s \<noteq> drop j s"
  by (metis diff_diff_cancel length_drop less_imp_le_nat drop_all length_0_conv nat_le_linear zero_less_diff not_less_zero gr_zeroI)

lemma phi_loop_fold:
  "\<forall>i\<in>set js. 0 < i \<and> i < length sa \<Longrightarrow> \<forall>x\<in>set sa. x < length phi \<Longrightarrow>
   phi_loop sa js phi = Inr (fold (\<lambda>i phi. phi[sa ! i := int (sa ! (i - 1))]) js phi)"
proof (induction js arbitrary: phi)
  case Nil
  then show ?case by simp
next
  case (Cons i js)
  have i: "0 < i" "i < length sa" using Cons.prems(1) by auto
  have a: "vec_at sa (int i) = Inr (sa ! i)" unfolding vec_at_def using i by simp
  have "nat (int i - 1) = i - 1" by simp
  then have b: "vec_at sa (int i - 1) = Inr (sa ! (i - 1))" unfolding vec_at_def using i by auto
  have "sa ! i < length phi" using Cons.prems(2) i by simp
  then have c: "vec_set phi (int (sa ! i)) (int (sa ! (i - 1))) = Inr (phi[sa ! i := int (sa ! (i - 1))])"
    unfolding vec_set_def by simp
  have "phi_loop sa js (phi[sa ! i := int (sa ! (i - 1))]) =
      Inr (fold (\<lambda>i phi. phi[sa ! i := int (sa ! (i - 1))]) js (phi[sa ! i := int (sa ! (i - 1))]))"
    using Cons.prems by (intro Cons.IH) auto
  then show ?case using a b c by simp
qed

lemma phi_fold_prefix:
  fixes sa :: "nat list" and phi0 :: "int list"
  assumes sa: "mset sa = mset [0..<n]" and phi0: "length phi0 = n"
    and step: "step = (\<lambda>i phi. phi[sa ! i := int (sa ! (i - 1))])"
    and m: "1 \<le> m" "m \<le> n"
  shows "length (fold step [1..<m] (phi0[sa ! 0 := - 1])) = n \<and>
         fold step [1..<m] (phi0[sa ! 0 := - 1]) ! (sa ! 0) = - 1 \<and>
         (\<forall>p. 0 < p \<and> p < m \<longrightarrow> fold step [1..<m] (phi0[sa ! 0 := - 1]) ! (sa ! p) = int (sa ! (p - 1)))"
  using m
proof (induction m)
  case 0
  then show ?case by simp
next
  case (Suc m)
  note f = perm_upto_facts [OF sa]
  show ?case
  proof (cases "m = 0")
    case True
    have "sa ! 0 < n" using perm_upto_nth [OF sa, of 0] Suc.prems by simp
    then show ?thesis using True phi0 by simp
  next
    case False
    then have m: "1 \<le> m" "m \<le> n" "m < n" "0 < m" using Suc.prems by auto
    define F where "F = fold step [1..<m] (phi0[sa ! 0 := - 1])"
    have IH: "length F = n" "F ! (sa ! 0) = - 1"
        "\<And>p. 0 < p \<Longrightarrow> p < m \<Longrightarrow> F ! (sa ! p) = int (sa ! (p - 1))"
      using Suc.IH m unfolding F_def by auto
    have upt: "[1..<Suc m] = [1..<m] @ [m]" using m by simp
    have F': "fold step [1..<Suc m] (phi0[sa ! 0 := - 1]) = F[sa ! m := int (sa ! (m - 1))]"
      unfolding upt F_def step by simp
    have ne: "sa ! p \<noteq> sa ! m" if "p < m" for p
      using f(1,2) m that by (simp add: nth_eq_iff_index_eq)
    have inb: "sa ! m < length F" using perm_upto_nth [OF sa m(3)] IH(1) by simp
    have a: "F[sa ! m := int (sa ! (m - 1))] ! (sa ! 0) = - 1"
      using ne [OF m(4)] IH(2) by simp
    have b: "F[sa ! m := int (sa ! (m - 1))] ! (sa ! p) = int (sa ! (p - 1))"
      if "0 < p" "p < Suc m" for p
    proof (cases "p = m")
      case True
      then show ?thesis using inb by simp
    next
      case False
      then have pm: "p < m" using that by simp
      then show ?thesis using ne [OF pm] IH(3) [OF that(1) pm] by simp
    qed
    show ?thesis unfolding F' using IH(1) a b by simp
  qed
qed

lemma build_phi_spec:
  assumes wf: "wf_index t" and n0: "0 < this_n t"
  shows "\<exists>phi. build_phi t = Inr phi \<and> length phi = this_n t \<and>
           phi ! (this_sa t ! 0) = - 1 \<and>
           (\<forall>p. 0 < p \<and> p < this_n t \<longrightarrow> phi ! (this_sa t ! p) = int (this_sa t ! (p - 1)))"
proof -
  let ?n = "this_n t" and ?sa = "this_sa t"
  note f = wf_index_facts [OF wf]
  have sa: "mset ?sa = mset [0..<?n]" using wf unfolding wf_index_def by simp
  have a: "vec_at ?sa 0 = Inr (?sa ! 0)" unfolding vec_at_def using f(1) n0 by simp
  have "?sa ! 0 < ?n" using f(3) [OF n0] .
  then have b: "vec_set (replicate ?n (0::int)) (int (?sa ! 0)) (- 1) = Inr ((replicate ?n 0)[?sa ! 0 := - 1])"
    unfolding vec_set_def by simp
  have c: "phi_loop ?sa [1..<?n] ((replicate ?n 0)[?sa ! 0 := - 1]) =
      Inr (fold (\<lambda>i phi. phi[?sa ! i := int (?sa ! (i - 1))]) [1..<?n] ((replicate ?n 0)[?sa ! 0 := - 1]))"
    using f(1,4) by (intro phi_loop_fold) auto
  have "1 \<le> ?n" using n0 by simp
  from phi_fold_prefix [OF sa _ refl this le_refl, of "replicate ?n 0"]
  show ?thesis unfolding build_phi_def using a b c by simp
qed

lemma str_at_nat:
  "str_at s (int i + int L) =
     (if i + L < length s then Inr (s ! (i + L))
      else if i + L = length s then Inr (CHR 0x00) else Inl OutOfBounds)"
  unfolding str_at_def by (auto simp: nat_add_distrib)

lemma lcp_extend_spec:
  assumes nul: "CHR 0x00 \<notin> set s" and ij: "i < length s" "j < length s" "i \<noteq> j"
  shows "L \<le> lcpl (drop i s) (drop j s) \<Longrightarrow>
         lcp_extend s (int i) (int j) L = Inr (lcpl (drop i s) (drop j s))"
proof (induction "lcpl (drop i s) (drop j s) - L" arbitrary: L)
  case 0
  then have L: "L = lcpl (drop i s) (drop j s)" by simp
  have le: "i + L \<le> length s" "j + L \<le> length s"
    using lcpl_le [of "drop i s" "drop j s"] ij unfolding L by auto
  have "str_at s (int i + int L) \<noteq> str_at s (int j + int L)"
  proof (cases "i + L < length s")
    case True
    note iL = this
    show ?thesis
    proof (cases "j + L < length s")
      case True
      have "drop i s ! L \<noteq> drop j s ! L"
        unfolding L using iL True L by (intro lcpl_mismatch) auto
      then show ?thesis unfolding str_at_nat using iL True by simp
    next
      case False
      have "s ! (i + L) \<in> set s" using iL by simp
      then have "s ! (i + L) \<noteq> CHR 0x00" using nul by metis
      then show ?thesis unfolding str_at_nat using iL False le by simp
    qed
  next
    case False
    then have "j + L < length s" using le ij by auto
    moreover then have "s ! (j + L) \<in> set s" by simp
    then have "s ! (j + L) \<noteq> CHR 0x00" using nul by metis
    ultimately show ?thesis unfolding str_at_nat using False le by auto
  qed
  moreover have "\<exists>a b. str_at s (int i + int L) = Inr a \<and> str_at s (int j + int L) = Inr b"
    unfolding str_at_nat using le by auto
  ultimately have "lcp_extend s (int i) (int j) L = Inr L"
    by (subst lcp_extend.simps) auto
  then show ?case using L by simp
next
  case (Suc d)
  then have lt: "L < lcpl (drop i s) (drop j s)" by simp
  have le: "i + L < length s" "j + L < length s"
    using lcpl_le [of "drop i s" "drop j s"] lt by auto
  have "drop i s ! L = drop j s ! L" using lcpl_nth [OF lt] .
  then have eq: "s ! (i + L) = s ! (j + L)" using le by simp
  have "lcp_extend s (int i) (int j) L = lcp_extend s (int i) (int j) (L + 1)"
    by (subst lcp_extend.simps) (simp add: str_at_nat le eq)
  moreover have "lcp_extend s (int i) (int j) (L + 1) = Inr (lcpl (drop i s) (drop j s))"
    using Suc.hyps(2) lt by (intro Suc.hyps(1)) auto
  ultimately show ?case by simp
qed

lemma build_phi_is_phi:
  assumes wf: "wf_index t" and n0: "0 < this_n t"
  shows "\<exists>phi. build_phi t = Inr phi \<and> is_phi (this_sa t) phi"
  using build_phi_spec [OF wf n0] wf_index_facts(1) [OF wf] unfolding is_phi_def by auto

lemma sorted_suffixes_le:
  assumes "sorted_suffixes s sa" "p \<le> q" "q < length sa"
  shows "drop (sa ! p) s \<le> drop (sa ! q) s"
proof (cases "p = q")
  case True
  then show ?thesis by simp
next
  case False
  then have "p < q" using assms(2) by simp
  then show ?thesis using assms(1,3) unfolding sorted_suffixes_def
    by (simp add: sorted_wrt_iff_nth_less)
qed

text \<open>What \<open>phi\<close> says about a position of the text, through its rank.\<close>

lemma phi_cases:
  assumes wf: "wf_index t" and phi: "is_phi (this_sa t) phi" and i: "i < this_n t"
  obtains (first) "phi ! i = - 1" "this_sa t ! 0 = i"
  | (pred) p where "0 < p" "p < this_n t" "this_sa t ! p = i"
      "phi ! i = int (this_sa t ! (p - 1))" "this_sa t ! (p - 1) < this_n t"
      "this_sa t ! (p - 1) \<noteq> i"
proof -
  note f = wf_index_facts [OF wf]
  obtain p where p: "p < this_n t" "this_sa t ! p = i"
    using i f(1,4) by (metis atLeastLessThan_iff in_set_conv_nth zero_le)
  show thesis
  proof (cases "p = 0")
    case True
    then show ?thesis using first phi p unfolding is_phi_def by auto
  next
    case False
    then have p0: "0 < p" by simp
    have a: "phi ! i = int (this_sa t ! (p - 1))"
      using phi p p0 f(1) unfolding is_phi_def by auto
    have b: "this_sa t ! (p - 1) < this_n t" using f(3) [of "p - 1"] p by simp
    have "p - 1 < length (this_sa t)" "p < length (this_sa t)" "p - 1 \<noteq> p"
      using f(1) p p0 by auto
    then have "this_sa t ! (p - 1) \<noteq> this_sa t ! p"
      using f(5) nth_eq_iff_index_eq by blast
    then show ?thesis using pred [OF p0 p a b] p(2) by simp
  qed
qed

lemma kasai_step:
  assumes wf: "wf_index t" and so: "sorted_suffixes (this_s t) (this_sa t)"
    and phi: "is_phi (this_sa t) phi" and i: "Suc i < this_n t"
  shows "plcp_of (this_s t) phi i - 1 \<le> plcp_of (this_s t) phi (Suc i)"
proof (cases "plcp_of (this_s t) phi i \<le> 1")
  case True
  then show ?thesis by simp
next
  case False
  let ?s = "this_s t" and ?sa = "this_sa t" and ?n = "this_n t"
  note f = wf_index_facts [OF wf]
  have V: "2 \<le> plcp_of ?s phi i" using False by simp
  have i': "i < ?n" using i by simp
  from wf phi i' show ?thesis
  proof (cases rule: phi_cases)
    case first
    then show ?thesis using V unfolding plcp_of_def by simp
  next
    case (pred p)
    define j where "j = ?sa ! (p - 1)"
    have ne: "phi ! i \<noteq> - 1" using pred(4) by simp
    have Vd: "plcp_of ?s phi i = lcpl (drop i ?s) (drop j ?s)"
      unfolding plcp_of_def j_def using pred(4) by simp
    have pos: "0 < lcpl (drop i ?s) (drop j ?s)" using V Vd by simp
    note d = lcpl_drop_pos [OF pos]
    have V1: "lcpl (drop (Suc i) ?s) (drop (Suc j) ?s) = plcp_of ?s phi i - 1"
      using d(4) Vd by simp
    then have pos1: "0 < lcpl (drop (Suc i) ?s) (drop (Suc j) ?s)" using V by simp
    have j1: "Suc j < ?n" using lcpl_drop_pos(2) [OF pos1] f(2) by simp
    have "drop j ?s \<le> drop i ?s"
      using sorted_suffixes_le [OF so, of "p - 1" p] pred(2,3) f(1) unfolding j_def by simp
    moreover have "drop j ?s \<noteq> drop i ?s"
      using drop_neq [of j ?s i] pred(5,6) f(2) unfolding j_def by simp
    ultimately have "drop j ?s < drop i ?s" by simp
    then have lt1: "drop (Suc j) ?s < drop (Suc i) ?s"
      using less_drop_Suc d(1,2,3) by blast
    obtain p0 where p0: "p0 < ?n" "?sa ! p0 = Suc j"
      using j1 f(1,4) by (metis atLeastLessThan_iff in_set_conv_nth zero_le)
    from wf phi i show ?thesis
    proof (cases rule: phi_cases)
      case first
      have "drop (?sa ! 0) ?s \<le> drop (?sa ! p0) ?s"
        using sorted_suffixes_le [OF so, of 0 p0] p0(1) f(1) by simp
      then show ?thesis using lt1 first(2) p0(2) by simp
    next
      case (pred p1)
      define q where "q = ?sa ! (p1 - 1)"
      have "p0 < p1"
      proof (rule ccontr)
        assume "\<not> p0 < p1"
        then have "drop (?sa ! p1) ?s \<le> drop (?sa ! p0) ?s"
          using sorted_suffixes_le [OF so, of p1 p0] p0(1) f(1) by simp
        then show False using lt1 pred(3) p0(2) by simp
      qed
      then have "drop (?sa ! p0) ?s \<le> drop (?sa ! (p1 - 1)) ?s"
        using sorted_suffixes_le [OF so, of p0 "p1 - 1"] pred(2) f(1) by simp
      then have a: "drop (Suc j) ?s \<le> drop q ?s" unfolding q_def p0(2) .
      have b: "drop q ?s \<le> drop (Suc i) ?s"
        using sorted_suffixes_le [OF so, of "p1 - 1" p1] pred(2,3) f(1) unfolding q_def by simp
      have "lcpl (drop (Suc j) ?s) (drop (Suc i) ?s) \<le> lcpl (drop q ?s) (drop (Suc i) ?s)"
        using lcpl_between [OF a b] .
      moreover have "plcp_of ?s phi (Suc i) = lcpl (drop (Suc i) ?s) (drop q ?s)"
        unfolding plcp_of_def q_def using pred(4) by simp
      ultimately show ?thesis using V1 by (simp add: lcpl_sym)
    qed
  qed
qed

lemma lcp_extend_at:
  assumes wf: "wf_index t" and phi: "is_phi (this_sa t) phi"
    and nul: "CHR 0x00 \<notin> set (this_s t)" and m: "m < this_n t"
    and ne: "phi ! m \<noteq> - 1" and L: "L \<le> plcp_of (this_s t) phi m"
  shows "lcp_extend (this_s t) (int m) (phi ! m) L = Inr (plcp_of (this_s t) phi m)"
    and "m + plcp_of (this_s t) phi m \<le> this_n t"
    and "nat (phi ! m) + plcp_of (this_s t) phi m \<le> this_n t"
    and "0 \<le> phi ! m" and "phi ! m \<noteq> int m"
proof -
  note f = wf_index_facts [OF wf]
  from wf phi m
  have "lcp_extend (this_s t) (int m) (phi ! m) L = Inr (plcp_of (this_s t) phi m) \<and>
     m + plcp_of (this_s t) phi m \<le> this_n t \<and>
     nat (phi ! m) + plcp_of (this_s t) phi m \<le> this_n t \<and>
     0 \<le> phi ! m \<and> phi ! m \<noteq> int m"
  proof (cases rule: phi_cases)
    case first
    then show ?thesis using ne by simp
  next
    case (pred p)
    define j where "j = this_sa t ! (p - 1)"
    have ph: "phi ! m = int j" using pred(4) unfolding j_def .
    have V: "plcp_of (this_s t) phi m = lcpl (drop m (this_s t)) (drop j (this_s t))"
      unfolding plcp_of_def ph by simp
    have j: "j < length (this_s t)" "m < length (this_s t)" "m \<noteq> j"
      using pred(5,6) m f(2) unfolding j_def by auto
    have a: "lcp_extend (this_s t) (int m) (phi ! m) L = Inr (plcp_of (this_s t) phi m)"
      unfolding ph V using L unfolding V by (intro lcp_extend_spec [OF nul j(2,1,3)])
    have le: "lcpl (drop m (this_s t)) (drop j (this_s t)) \<le> length (this_s t) - m"
      "lcpl (drop m (this_s t)) (drop j (this_s t)) \<le> length (this_s t) - j"
      using lcpl_le [of "drop m (this_s t)" "drop j (this_s t)"] by simp_all
    have b: "m + plcp_of (this_s t) phi m \<le> this_n t"
      unfolding V f(2) using le(1) j(2) by linarith
    have "nat (phi ! m) = j" unfolding ph by simp
    then have c: "nat (phi ! m) + plcp_of (this_s t) phi m \<le> this_n t"
      unfolding V f(2) using le(2) j(1) by linarith
    have d: "0 \<le> phi ! m" "phi ! m \<noteq> int m" using j(3) unfolding ph by simp_all
    show ?thesis using a b c d by simp
  qed
  then show "lcp_extend (this_s t) (int m) (phi ! m) L = Inr (plcp_of (this_s t) phi m)"
    and "m + plcp_of (this_s t) phi m \<le> this_n t"
    and "nat (phi ! m) + plcp_of (this_s t) phi m \<le> this_n t"
    and "0 \<le> phi ! m" and "phi ! m \<noteq> int m"
    by simp_all
qed

lemma plcp_step_inv:
  assumes wf: "wf_index t" and so: "sorted_suffixes (this_s t) (this_sa t)"
    and phi: "is_phi (this_sa t) phi" and nul: "CHR 0x00 \<notin> set (this_s t)"
    and m: "m < this_n t" and inv: "plcp_inv (this_s t) phi m st"
  shows "\<exists>st'. plcp_step (this_s t) phi m st = Inr st' \<and> plcp_inv (this_s t) phi (Suc m) st'"
proof -
  let ?s = "this_s t" and ?n = "this_n t"
  note f = wf_index_facts [OF wf]
  obtain plcp L maxL lcp where st: "st = (plcp, L, maxL, lcp)" by (cases st) auto
  have I: "length plcp = length ?s" "\<And>i. i < m \<Longrightarrow> plcp ! i = plcp_of ?s phi i"
      "L \<le> plcp_of ?s phi m" "\<And>i. i < m \<Longrightarrow> plcp_of ?s phi i \<le> maxL" "length lcp = maxL"
      "maxL = 0 \<or> (\<exists>i<m. plcp_of ?s phi i = maxL \<and> lcp = take maxL (drop i ?s))"
    using inv m f(2) unfolding plcp_inv_def st by auto
  have lphi: "length phi = ?n" using phi f(1) unfolding is_phi_def by simp
  have va: "vec_at phi (int m) = Inr (phi ! m)" unfolding vec_at_def using lphi m by simp
  have vs: "vec_set plcp (int m) v = Inr (plcp[m := v])" for v
    unfolding vec_set_def using I(1) m f(2) by simp
  have nx: "Suc m < length ?s \<Longrightarrow> plcp_of ?s phi m - 1 \<le> plcp_of ?s phi (Suc m)"
    using kasai_step [OF wf so phi, of m] f(2) by simp
  show ?thesis
  proof (cases "phi ! m = - 1")
    case True
    then have z: "plcp_of ?s phi m = 0" unfolding plcp_of_def by simp
    have step: "plcp_step ?s phi m st = Inr (plcp[m := 0], L, maxL, lcp)"
      unfolding plcp_step_def st using va vs True by simp
    have "plcp_inv ?s phi (Suc m) (plcp[m := 0], L, maxL, lcp)"
      unfolding plcp_inv_def using I z m f(2)
      by (auto simp: less_Suc_eq nth_list_update)
    then show ?thesis using step by simp
  next
    case False
    define V where "V = plcp_of ?s phi m"
    note e = lcp_extend_at [OF wf phi nul m False I(3)]
    have sub: "substr ?s m V = Inr (take V (drop m ?s))"
      unfolding substr_def using m f(2) by simp
    have len: "length (take V (drop m ?s)) = V" using e(2) f(2) unfolding V_def by simp
    have nx': "Suc m < length ?s \<longrightarrow> max (V - 1) 0 \<le> plcp_of ?s phi (Suc m)"
      using nx unfolding V_def by simp
    show ?thesis
    proof (cases "maxL < V")
      case True
      have step: "plcp_step ?s phi m st = Inr (plcp[m := V], max (V - 1) 0, V, take V (drop m ?s))"
        unfolding plcp_step_def st using va vs False e(1) sub True unfolding V_def by simp
      have "plcp_inv ?s phi (Suc m) (plcp[m := V], max (V - 1) 0, V, take V (drop m ?s))"
        unfolding plcp_inv_def prod.case
      proof (intro conjI)
        show "length (plcp[m := V]) = length ?s" using I(1) by simp
        show "\<forall>i<Suc m. plcp[m := V] ! i = plcp_of ?s phi i"
          using I(1,2) m f(2) unfolding V_def by (auto simp: less_Suc_eq nth_list_update)
        show "Suc m < length ?s \<longrightarrow> max (V - 1) 0 \<le> plcp_of ?s phi (Suc m)" by (rule nx')
        show "\<forall>i<Suc m. plcp_of ?s phi i \<le> V"
          using I(4) True unfolding V_def by (auto simp: less_Suc_eq dest: less_imp_le le_less_trans)
        show "length (take V (drop m ?s)) = V" by (rule len)
        show "V = 0 \<or> (\<exists>i<Suc m. plcp_of ?s phi i = V \<and> take V (drop m ?s) = take V (drop i ?s))"
          unfolding V_def by auto
      qed
      then show ?thesis using step by simp
    next
      case False
      have step: "plcp_step ?s phi m st = Inr (plcp[m := V], max (V - 1) 0, maxL, lcp)"
        unfolding plcp_step_def st using va vs \<open>phi ! m \<noteq> - 1\<close> e(1) False unfolding V_def by simp
      have "plcp_inv ?s phi (Suc m) (plcp[m := V], max (V - 1) 0, maxL, lcp)"
        unfolding plcp_inv_def prod.case
      proof (intro conjI)
        show "length (plcp[m := V]) = length ?s" using I(1) by simp
        show "\<forall>i<Suc m. plcp[m := V] ! i = plcp_of ?s phi i"
          using I(1,2) m f(2) unfolding V_def by (auto simp: less_Suc_eq nth_list_update)
        show "Suc m < length ?s \<longrightarrow> max (V - 1) 0 \<le> plcp_of ?s phi (Suc m)" by (rule nx')
        show "\<forall>i<Suc m. plcp_of ?s phi i \<le> maxL"
          using I(4) False unfolding V_def by (auto simp: less_Suc_eq)
        show "length lcp = maxL" by (rule I(5))
        show "maxL = 0 \<or> (\<exists>i<Suc m. plcp_of ?s phi i = maxL \<and> lcp = take maxL (drop i ?s))"
          using I(6) by (auto simp: less_Suc_eq)
      qed
      then show ?thesis using step by simp
    qed
  qed
qed

lemma plcp_loop_append:
  "plcp_loop s phi (xs @ ys) st =
     (case plcp_loop s phi xs st of Inl e \<Rightarrow> Inl e | Inr st' \<Rightarrow> plcp_loop s phi ys st')"
  by (induction xs arbitrary: st) (auto split: sum.splits)

lemma plcp_loop_inv:
  assumes wf: "wf_index t" and so: "sorted_suffixes (this_s t) (this_sa t)"
    and phi: "is_phi (this_sa t) phi" and nul: "CHR 0x00 \<notin> set (this_s t)"
  shows "m \<le> this_n t \<Longrightarrow>
         \<exists>st. plcp_loop (this_s t) phi [0..<m] (replicate (this_n t) 0, 0, 0, []) = Inr st \<and>
              plcp_inv (this_s t) phi m st"
proof (induction m)
  case 0
  have "plcp_inv (this_s t) phi 0 (replicate (this_n t) 0, 0, 0, [])"
    unfolding plcp_inv_def using wf_index_facts(2) [OF wf] by simp
  then show ?case by simp
next
  case (Suc m)
  then obtain st where st: "plcp_loop (this_s t) phi [0..<m] (replicate (this_n t) 0, 0, 0, []) = Inr st"
      "plcp_inv (this_s t) phi m st" by auto
  have m: "m < this_n t" using Suc.prems by simp
  obtain st' where st': "plcp_step (this_s t) phi m st = Inr st'" "plcp_inv (this_s t) phi (Suc m) st'"
    using plcp_step_inv [OF wf so phi nul m st(2)] by blast
  have "plcp_loop (this_s t) phi [0..<Suc m] (replicate (this_n t) 0, 0, 0, []) = Inr st'"
    using st(1) st'(1) by (simp add: plcp_loop_append)
  then show ?case using st'(2) by blast
qed

lemma valid_text_no_nul: "valid_text sg s \<Longrightarrow> CHR 0x00 \<notin> set s"
  unfolding valid_text_def char_to_int_def by (auto simp: Let_def)

lemma findLCP_run_inv:
  assumes srt: "sorts srt" and v: "valid_text sg s" and ne: "s \<noteq> []"
  shows "\<exists>phi st. build_phi (SuffixArray srt sg s) = Inr phi \<and>
           is_phi (this_sa (SuffixArray srt sg s)) phi \<and>
           findLCP_run (SuffixArray srt sg s) = Inr st \<and> plcp_inv s phi (length s) st"
proof -
  let ?t = "SuffixArray srt sg s"
  have wf: "wf_index ?t" by (rule SuffixArray_wf [OF srt])
  have so: "sorted_suffixes (this_s ?t) (this_sa ?t)" using SuffixArray_sorted [OF srt v] by simp
  have n0: "0 < this_n ?t" using ne by simp
  have nul: "CHR 0x00 \<notin> set (this_s ?t)" using valid_text_no_nul [OF v] by simp
  obtain phi where phi: "build_phi ?t = Inr phi" "is_phi (this_sa ?t) phi"
    using build_phi_is_phi [OF wf n0] by blast
  obtain st where st: "plcp_loop (this_s ?t) phi [0..<this_n ?t] (replicate (this_n ?t) 0, 0, 0, []) = Inr st"
      "plcp_inv (this_s ?t) phi (this_n ?t) st"
    using plcp_loop_inv [OF wf so phi(2) nul le_refl] by blast
  have "findLCP_run ?t = Inr st" unfolding findLCP_run_def phi(1) using st(1) by simp
  then show ?thesis using phi st(2) by auto
qed

lemma lcpl_pair_le_plcp:
  assumes wf: "wf_index t" and so: "sorted_suffixes (this_s t) (this_sa t)"
    and phi: "is_phi (this_sa t) phi" and ij: "i < this_n t" "j < this_n t" "i \<noteq> j"
  shows "lcpl (drop i (this_s t)) (drop j (this_s t)) \<le>
           max (plcp_of (this_s t) phi i) (plcp_of (this_s t) phi j)"
proof -
  let ?s = "this_s t" and ?sa = "this_sa t" and ?n = "this_n t"
  note f = wf_index_facts [OF wf]
  have key: "lcpl (drop (?sa ! a) ?s) (drop (?sa ! b) ?s) \<le> plcp_of ?s phi (?sa ! b)"
    if ab: "a < b" "b < ?n" for a b
  proof -
    have b0: "0 < b" using ab by simp
    have ph: "phi ! (?sa ! b) = int (?sa ! (b - 1))"
      using phi b0 ab(2) f(1) unfolding is_phi_def by simp
    have V: "plcp_of ?s phi (?sa ! b) = lcpl (drop (?sa ! b) ?s) (drop (?sa ! (b - 1)) ?s)"
      unfolding plcp_of_def ph by simp
    have "drop (?sa ! a) ?s \<le> drop (?sa ! (b - 1)) ?s"
      using sorted_suffixes_le [OF so, of a "b - 1"] ab f(1) by simp
    moreover have "drop (?sa ! (b - 1)) ?s \<le> drop (?sa ! b) ?s"
      using sorted_suffixes_le [OF so, of "b - 1" b] ab f(1) by simp
    ultimately show ?thesis unfolding V using lcpl_between lcpl_sym by metis
  qed
  obtain p where p: "p < ?n" "?sa ! p = i"
    using ij(1) f(1,4) by (metis atLeastLessThan_iff in_set_conv_nth zero_le)
  obtain q where q: "q < ?n" "?sa ! q = j"
    using ij(2) f(1,4) by (metis atLeastLessThan_iff in_set_conv_nth zero_le)
  have "p \<noteq> q" using p q ij(3) by auto
  then consider "p < q" | "q < p" by (meson nat_neq_iff)
  then show ?thesis
  proof cases
    case 1
    from key [OF 1 q(1)] show ?thesis unfolding p(2) q(2) by simp
  next
    case 2
    from key [OF 2 p(1)] show ?thesis unfolding p(2) q(2) by (simp add: lcpl_sym)
  qed
qed

section \<open>What the results depend on\<close>

text \<open>
  A text has one sorted permutation of its suffix positions, because its suffixes are
  pairwise distinct. And \<^verbatim>\<open>find\<close> and \<^verbatim>\<open>findLCP\<close> read the text and the suffix array only,
  not the ranks. So for a valid text the results are the same for every sorting
  function that meets the requirement of \<^verbatim>\<open>std::sort\<close>.
\<close>


lemma drop_inj_on: "inj_on (\<lambda>i. drop i s) {..<length s}"
proof (rule inj_onI)
  fix i j assume i: "i \<in> {..<length s}" and j: "j \<in> {..<length s}" and e: "drop i s = drop j s"
  have "length (drop i s) = length (drop j s)" using e by simp
  then show "i = j" using i j by simp
qed

lemma sorted_suffixes_unique:
  assumes p: "mset sa = mset [0..<length s]" and so: "sorted_suffixes s sa"
    and p': "mset sa' = mset [0..<length s]" and so': "sorted_suffixes s sa'"
  shows "sa = sa'"
proof -
  let ?f = "\<lambda>i. drop i s"
  have st: "set sa = {..<length s}" "set sa' = {..<length s}"
    using mset_eq_setD [OF p] mset_eq_setD [OF p'] by auto
  have d: "distinct sa" "distinct sa'"
    using mset_eq_imp_distinct_iff [OF p] mset_eq_imp_distinct_iff [OF p'] by simp_all
  have inj: "inj_on ?f (set sa)" "inj_on ?f (set sa')"
    using drop_inj_on [of s] st by simp_all
  have s1: "sorted (map ?f sa)" "sorted (map ?f sa')"
    using so so' unfolding sorted_suffixes_def by (simp_all add: sorted_wrt_map)
  have d1: "distinct (map ?f sa)" "distinct (map ?f sa')"
    using d inj by (simp_all add: distinct_map)
  have "set (map ?f sa) = set (map ?f sa')" using st by simp
  then have "map ?f sa = map ?f sa'"
    using sorted_distinct_set_unique [OF s1(1) d1(1) s1(2) d1(2)] by simp
  moreover have "inj_on ?f (set sa \<union> set sa')" using drop_inj_on [of s] st by simp
  ultimately show ?thesis using inj_on_map_eq_map by blast
qed

lemma SuffixArray_unique:
  assumes "sorts srt" and "valid_text sg s"
    and "mset sa = mset [0..<length s]" and "sorted_suffixes s sa"
  shows "this_sa (SuffixArray srt sg s) = sa"
  using sorted_suffixes_unique [OF SuffixArray_perm [OF assms(1)] SuffixArray_sorted [OF assms(1,2)] assms(3,4)] .

lemma findLCP_cong:
  assumes "this_s t = this_s t'" and "this_n t = this_n t'" and "this_sa t = this_sa t'"
  shows "findLCP t = findLCP t'"
  unfolding findLCP_def findLCP_run_def build_phi_def assms ..

lemma find_sa_cong:
  assumes wf: "wf_index t" "wf_index t'"
    and so: "sorted_suffixes (this_s t) (this_sa t)"
    and e: "this_s t = this_s t'" "this_n t = this_n t'" "this_sa t = this_sa t'"
  shows "find_sa t p = find_sa t' p"
proof -
  have so': "sorted_suffixes (this_s t') (this_sa t')" using so e by simp
  have w: "window t m i = window t' m i" for m i unfolding window_def using e by simp
  show ?thesis
    unfolding find_sa_spec [OF wf(1) window_mono_sorted [OF wf(1) so]]
      find_sa_spec [OF wf(2) window_mono_sorted [OF wf(2) so']]
    using e w by simp
qed

lemma occurrences_code:
  "occurrences s p = set (filter (\<lambda>k. take (length p) (drop k s) = p) [0..<length s])"
  unfolding occurrences_def by auto

lemma valid_text_unsigned: "valid_text False s = (CHR 0x00 \<notin> set s)"
proof -
  have "0 < char_to_int False c \<longleftrightarrow> c \<noteq> CHR 0x00" for c
  proof -
    have "0 \<le> char_to_int False c" unfolding char_to_int_def Let_def int_of_char by simp
    then show ?thesis using char_to_int_eq_0 [of False c] by linarith
  qed
  then show ?thesis unfolding valid_text_def by auto
qed

lemma valid_text_signed:
  "valid_text True s = (\<forall>c\<in>set s. c \<noteq> CHR 0x00 \<and> (of_char c :: nat) < 128)"
proof -
  have "0 < char_to_int True c \<longleftrightarrow> c \<noteq> CHR 0x00 \<and> (of_char c :: nat) < 128" for c
  proof -
    define v :: nat where "v = of_char c"
    have v: "v < 256" unfolding v_def by simp
    have e: "char_to_int True c = (if 128 \<le> int v then int v - 256 else int v)"
      unfolding char_to_int_def Let_def v_def int_of_char by simp
    have "v = 0 \<longleftrightarrow> c = CHR 0x00"
      unfolding v_def using of_char_eq_iff [of c "CHR 0x00", where ?'a = nat] by simp
    then show ?thesis using e v unfolding v_def [symmetric] by (auto split: if_splits)
  qed
  then show ?thesis unfolding valid_text_def by simp
qed

lemma SuffixArray_any_sorter:
  assumes "sorts srt" and "sorts srt'" and "valid_text sg s" and "valid_text sg' s"
  shows "this_sa (SuffixArray srt sg s) = this_sa (SuffixArray srt' sg' s)"
    and "find_sa (SuffixArray srt sg s) p = find_sa (SuffixArray srt' sg' s) p"
    and "findLCP (SuffixArray srt sg s) = findLCP (SuffixArray srt' sg' s)"
proof -
  let ?t = "SuffixArray srt sg s" and ?u = "SuffixArray srt' sg' s"
  show e: "this_sa ?t = this_sa ?u"
    using SuffixArray_unique [OF assms(1,3) SuffixArray_perm [OF assms(2)]
        SuffixArray_sorted [OF assms(2,4)]] .
  have so: "sorted_suffixes (this_s ?t) (this_sa ?t)"
    using SuffixArray_sorted [OF assms(1,3)] by simp
  show "find_sa ?t p = find_sa ?u p"
    by (rule find_sa_cong [OF SuffixArray_wf [OF assms(1)] SuffixArray_wf [OF assms(2)] so _ _ e])
      simp_all
  show "findLCP ?t = findLCP ?u" by (rule findLCP_cong [OF _ _ e]) simp_all
qed

lemma valid_text_ascii:
  assumes "\<forall>c\<in>set s. c \<noteq> CHR 0x00 \<and> (of_char c :: nat) < 128"
  shows "valid_text sg s"
proof (cases sg)
  case True
  then show ?thesis using assms valid_text_signed by simp
next
  case False
  then show ?thesis using assms valid_text_unsigned by auto
qed

lemma find_sa_filter_wf:
  assumes wf: "wf_index t" and so: "sorted_suffixes (this_s t) (this_sa t)"
  shows "find_sa t p =
     (if \<forall>k<length (this_s t). take (length p) (drop k (this_s t)) < p then Inl OutOfBounds
      else Inr (filter (\<lambda>k. take (length p) (drop k (this_s t)) = p) (this_sa t)))"
proof -
  define s sa n m where "s = this_s t" and "sa = this_sa t" and "n = this_n t" and "m = length p"
  define w where "w = window t m"
  note f = wf_index_facts [OF wf]
  have n: "n = length s" using f unfolding n_def s_def by simp
  have l: "length sa = n" using f unfolding sa_def n_def by simp
  have st: "set sa = {..<n}" using f unfolding sa_def n_def by auto
  have w: "w i = take m (drop (sa ! i) s)" for i
    unfolding w_def window_def sa_def s_def ..
  have spec: "find_sa t p =
     (if \<forall>i<n. w i < p then Inl OutOfBounds
      else Inr (map (\<lambda>i. sa ! i) (filter (\<lambda>i. w i = p) [0..<n])))"
    using find_sa_spec [OF wf window_mono_sorted [OF wf so], of p]
    unfolding w_def m_def n_def sa_def .
  have a: "(\<forall>i<n. w i < p) = (\<forall>k<n. take m (drop k s) < p)"
  proof
    assume h: "\<forall>i<n. w i < p"
    show "\<forall>k<n. take m (drop k s) < p"
    proof (intro allI impI)
      fix k assume "k < n"
      then have "k \<in> set sa" using st by simp
      then obtain i where i: "i < length sa" "sa ! i = k"
        unfolding in_set_conv_nth by blast
      have "i < n" using i(1) l by simp
      then have "w i < p" using h by blast
      then show "take m (drop k s) < p" unfolding w i(2) .
    qed
  next
    assume h: "\<forall>k<n. take m (drop k s) < p"
    show "\<forall>i<n. w i < p"
    proof (intro allI impI)
      fix i assume "i < n"
      then have "sa ! i \<in> set sa" using l by simp
      then have "sa ! i < n" using st by simp
      then have "take m (drop (sa ! i) s) < p" using h by blast
      then show "w i < p" unfolding w .
    qed
  qed
  have c: "(\<lambda>i. take m (drop (sa ! i) s) = p) = (\<lambda>i. w i = p)" unfolding w ..
  have "filter (\<lambda>k. take m (drop k s) = p) (map (\<lambda>i. sa ! i) [0..<n]) =
        map (\<lambda>i. sa ! i) (filter (\<lambda>i. w i = p) [0..<n])"
    unfolding filter_map comp_def c ..
  moreover have "map (\<lambda>i. sa ! i) [0..<n] = sa"
    using map_nth [of sa] unfolding l .
  ultimately have b: "map (\<lambda>i. sa ! i) (filter (\<lambda>i. w i = p) [0..<n]) =
        filter (\<lambda>k. take m (drop k s) = p) sa" by simp
  show ?thesis unfolding spec a b unfolding n s_def sa_def m_def ..
qed

lemma find_sa_filter:
  assumes srt: "sorts srt" and v: "valid_text sg s"
  shows "find_sa (SuffixArray srt sg s) p =
     (if \<forall>k<length s. take (length p) (drop k s) < p then Inl OutOfBounds
      else Inr (filter (\<lambda>k. take (length p) (drop k s) = p) (this_sa (SuffixArray srt sg s))))"
proof -
  have so: "sorted_suffixes (this_s (SuffixArray srt sg s)) (this_sa (SuffixArray srt sg s))"
    using SuffixArray_sorted [OF srt v] by simp
  show ?thesis
    using find_sa_filter_wf [OF SuffixArray_wf [OF srt] so, of p] unfolding SuffixArray_s .
qed

section \<open>Concrete runs\<close>

text \<open>
  The runs that the witnesses and counterexamples use, each evaluated by the kernel
  from the definitions, pass by pass: \<open>obj\<close> is the object the constructor builds,
  \<open>iter\<close> one iteration of the loop of \<^verbatim>\<open>build\<close>, \<open>steps\<close> the doubling steps,
  \<open>phi\<close>, \<open>plcp\<close> and \<open>run\<close> the loops of \<^verbatim>\<open>findLCP\<close>. The sorting function is the stable
  insertion sort; \<^verbatim>\<open>char\<close> is signed except where a name ends in \<open>u\<close>.
\<close>

lemma build_iter_eval:
  "srt (cmp n k ra) sa = sa' \<Longrightarrow> rank_pass n k ra sa' rb = rb' \<Longrightarrow>
   copy_pass n sa' rb' ra = ra' \<Longrightarrow> build_iter srt n k (sa, ra, rb) = (sa', ra', rb')"
  by (simp add: build_iter_def)

lemma SuffixArray_eval:
  assumes "length s = n" and "[0..<n] = sa0" and "map (char_to_int sg) s = ra0"
    and "replicate n 0 = rb0" and "build_loop srt n 1 (sa0, ra0, rb0) = (k', sa', ra', rb')"
  shows "SuffixArray srt sg s =
     \<lparr>this_s = s, this_n = n, this_k = k', this_sa = sa', this_ra = ra', this_rb = rb'\<rparr>"
  using SuffixArray_loop [of srt s sg k' sa' ra' rb'] assms by simp

lemma findLCP_run_eval:
  "build_phi t = Inr phi \<Longrightarrow>
   findLCP_run t = plcp_loop (this_s t) phi [0..<this_n t] (replicate (this_n t) 0, 0, 0, [])"
  by (simp add: findLCP_run_def)

lemma valid_text_abab: "valid_text True ''abab''"
  unfolding valid_text_def char_to_int_def by simp

subsection \<open>The text \<open>abab\<close>\<close>

lemma iter_abab_1:
  "build_iter insertion_sort 4 1 ([0, 1, 2, 3], [97, 98, 97, 98], [0, 0, 0, 0]) =
     ([0, 2, 3, 1], [1, 3, 1, 2], [1, 3, 1, 2])"
proof (rule build_iter_eval)
  show "insertion_sort (cmp 4 1 [97, 98, 97, 98]) [0, 1, 2, 3] = [0, 2, 3, 1]"
    by code_simp
  show "rank_pass 4 1 [97, 98, 97, 98] [0, 2, 3, 1] [0, 0, 0, 0] =
      [1, 3, 1, 2]"
    by code_simp
  show "copy_pass 4 [0, 2, 3, 1] [1, 3, 1, 2] [97, 98, 97, 98] =
      [1, 3, 1, 2]"
    by code_simp
qed

lemma iter_abab_2:
  "build_iter insertion_sort 4 2 ([0, 2, 3, 1], [1, 3, 1, 2], [1, 3, 1, 2]) =
     ([2, 0, 3, 1], [2, 4, 1, 3], [2, 4, 1, 3])"
proof (rule build_iter_eval)
  show "insertion_sort (cmp 4 2 [1, 3, 1, 2]) [0, 2, 3, 1] = [2, 0, 3, 1]"
    by code_simp
  show "rank_pass 4 2 [1, 3, 1, 2] [2, 0, 3, 1] [1, 3, 1, 2] =
      [2, 4, 1, 3]"
    by code_simp
  show "copy_pass 4 [2, 0, 3, 1] [2, 4, 1, 3] [1, 3, 1, 2] =
      [2, 4, 1, 3]"
    by code_simp
qed

lemma obj_abab:
  "SuffixArray insertion_sort True ''abab'' =
     \<lparr>this_s = ''abab'', this_n = 4, this_k = 2,
      this_sa = [2, 0, 3, 1], this_ra = [2, 4, 1, 3], this_rb = [2, 4, 1, 3]\<rparr>"
proof (rule SuffixArray_eval)
  show "length ''abab'' = 4" by simp
  show "[0..<4] = [0, 1, 2, 3]" by code_simp
  show "map (char_to_int True) ''abab'' = [97, 98, 97, 98]"
    by code_simp
  show "replicate 4 0 = ([0, 0, 0, 0] :: int list)" by code_simp
  have "build_loop insertion_sort 4 1 ([0, 1, 2, 3], [97, 98, 97, 98], [0, 0, 0, 0]) =
      build_loop insertion_sort 4 2 ([0, 2, 3, 1], [1, 3, 1, 2], [1, 3, 1, 2])"
    using build_loop_continue [OF _ _ iter_abab_1] by simp
  also have "\<dots> =
      (2, [2, 0, 3, 1], [2, 4, 1, 3], [2, 4, 1, 3])"
    using build_loop_break [OF _ _ iter_abab_2] by simp
  finally show "build_loop insertion_sort 4 1 ([0, 1, 2, 3], [97, 98, 97, 98], [0, 0, 0, 0]) =
      (2, [2, 0, 3, 1], [2, 4, 1, 3], [2, 4, 1, 3])" .
qed

lemma steps_abab:
  "doubling_steps insertion_sort True ''abab'' =
     [(1, [0, 1, 2, 3], [97, 98, 97, 98], [0, 0, 0, 0]),
      (2, [0, 2, 3, 1], [1, 3, 1, 2], [1, 3, 1, 2])]"
proof -
  have a: "length ''abab'' = 4" by simp
  have b: "[0..<4] = [0, 1, 2, 3]" by code_simp
  have c: "map (char_to_int True) ''abab'' = [97, 98, 97, 98]"
    by code_simp
  have d: "replicate 4 0 = ([0, 0, 0, 0] :: int list)" by code_simp
  have t1: "build_trace insertion_sort 4 2 ([0, 2, 3, 1], [1, 3, 1, 2], [1, 3, 1, 2]) =
      [(2, [0, 2, 3, 1], [1, 3, 1, 2], [1, 3, 1, 2])]"
    using build_trace_break [OF _ _ iter_abab_2] by simp
  have t0: "build_trace insertion_sort 4 1 ([0, 1, 2, 3], [97, 98, 97, 98], [0, 0, 0, 0]) =
      [(1, [0, 1, 2, 3], [97, 98, 97, 98], [0, 0, 0, 0]), (2, [0, 2, 3, 1], [1, 3, 1, 2], [1, 3, 1, 2])]"
    using build_trace_continue [OF _ _ iter_abab_1] t1 by simp
  show ?thesis unfolding doubling_steps_init a b c d t0 ..
qed

lemma find_abab_ab:
  "find_sa (SuffixArray insertion_sort True ''abab'') ''ab'' = Inr [2, 0]"
  unfolding obj_abab by code_simp

lemma phi_abab:
  "build_phi (SuffixArray insertion_sort True ''abab'') = Inr [2, 3, - 1, 0]"
  unfolding obj_abab by code_simp

lemma plcp_abab_1:
  "plcp_loop ''abab'' [2, 3, - 1, 0] [0..<1] (replicate 4 0, 0, 0, []) =
     Inr ([2, 0, 0, 0], 1, 2, ''ab'')"
  by code_simp

lemma extend_abab_1:
  "lcp_extend ''abab'' 1 3 1 = Inr 1"
  by code_simp

lemma plcp_abab_all:
  "plcp_loop ''abab'' [2, 3, - 1, 0] [0..<4] (replicate 4 0, 0, 0, []) =
     Inr ([2, 1, 0, 0], 0, 2, ''ab'')"
  by code_simp

lemma run_abab:
  "findLCP_run (SuffixArray insertion_sort True ''abab'') =
     Inr ([2, 1, 0, 0], 0, 2, ''ab'')"
  using findLCP_run_eval [OF phi_abab] plcp_abab_all unfolding obj_abab by simp

lemma lcp_abab:
  "findLCP (SuffixArray insertion_sort True ''abab'') = Inr ''ab''"
  unfolding findLCP_def run_abab by simp

subsection \<open>The texts \<open>a\<close> and \<open>ab\<close>\<close>

lemma obj_a:
  "SuffixArray insertion_sort True ''a'' =
     \<lparr>this_s = ''a'', this_n = 1, this_k = 1,
      this_sa = [0], this_ra = [97], this_rb = [0]\<rparr>"
proof (rule SuffixArray_eval)
  show "length ''a'' = 1" by simp
  show "[0..<1] = [0]" by code_simp
  show "map (char_to_int True) ''a'' = [97]"
    by code_simp
  show "replicate 1 0 = ([0] :: int list)" by code_simp
  show "build_loop insertion_sort 1 1 ([0], [97], [0]) =
      (1, [0], [97], [0])"
    using build_loop_stop [of 1 1 insertion_sort "([0], [97], [0])"] by simp
qed

lemma find_a_b:
  "find_sa (SuffixArray insertion_sort True ''a'') ''b'' = Inl OutOfBounds"
  unfolding obj_a by code_simp

lemma iter_ab_1:
  "build_iter insertion_sort 2 1 ([0, 1], [97, 98], [0, 0]) =
     ([0, 1], [1, 2], [1, 2])"
proof (rule build_iter_eval)
  show "insertion_sort (cmp 2 1 [97, 98]) [0, 1] = [0, 1]"
    by code_simp
  show "rank_pass 2 1 [97, 98] [0, 1] [0, 0] =
      [1, 2]"
    by code_simp
  show "copy_pass 2 [0, 1] [1, 2] [97, 98] =
      [1, 2]"
    by code_simp
qed

lemma obj_ab:
  "SuffixArray insertion_sort True ''ab'' =
     \<lparr>this_s = ''ab'', this_n = 2, this_k = 1,
      this_sa = [0, 1], this_ra = [1, 2], this_rb = [1, 2]\<rparr>"
proof (rule SuffixArray_eval)
  show "length ''ab'' = 2" by simp
  show "[0..<2] = [0, 1]" by code_simp
  show "map (char_to_int True) ''ab'' = [97, 98]"
    by code_simp
  show "replicate 2 0 = ([0, 0] :: int list)" by code_simp
  show "build_loop insertion_sort 2 1 ([0, 1], [97, 98], [0, 0]) =
      (1, [0, 1], [1, 2], [1, 2])"
    using build_loop_break [OF _ _ iter_ab_1] by simp
qed

lemma steps_ab:
  "doubling_steps insertion_sort True ''ab'' =
     [(1, [0, 1], [97, 98], [0, 0])]"
proof -
  have a: "length ''ab'' = 2" by simp
  have b: "[0..<2] = [0, 1]" by code_simp
  have c: "map (char_to_int True) ''ab'' = [97, 98]"
    by code_simp
  have d: "replicate 2 0 = ([0, 0] :: int list)" by code_simp
  have t0: "build_trace insertion_sort 2 1 ([0, 1], [97, 98], [0, 0]) =
      [(1, [0, 1], [97, 98], [0, 0])]"
    using build_trace_break [OF _ _ iter_ab_1] by simp
  show ?thesis unfolding doubling_steps_init a b c d t0 ..
qed

subsection \<open>Texts of NUL characters\<close>

lemma iter_nul2_1:
  "build_iter insertion_sort 2 1 ([0, 1], [0, 0], [0, 0]) =
     ([0, 1], [1, 1], [1, 1])"
proof (rule build_iter_eval)
  show "insertion_sort (cmp 2 1 [0, 0]) [0, 1] = [0, 1]"
    by code_simp
  show "rank_pass 2 1 [0, 0] [0, 1] [0, 0] =
      [1, 1]"
    by code_simp
  show "copy_pass 2 [0, 1] [1, 1] [0, 0] =
      [1, 1]"
    by code_simp
qed

lemma obj_nul2:
  "SuffixArray insertion_sort True [CHR 0x00, CHR 0x00] =
     \<lparr>this_s = [CHR 0x00, CHR 0x00], this_n = 2, this_k = 2,
      this_sa = [0, 1], this_ra = [1, 1], this_rb = [1, 1]\<rparr>"
proof (rule SuffixArray_eval)
  show "length [CHR 0x00, CHR 0x00] = 2" by simp
  show "[0..<2] = [0, 1]" by code_simp
  show "map (char_to_int True) [CHR 0x00, CHR 0x00] = [0, 0]"
    by code_simp
  show "replicate 2 0 = ([0, 0] :: int list)" by code_simp
  have "build_loop insertion_sort 2 1 ([0, 1], [0, 0], [0, 0]) =
      build_loop insertion_sort 2 2 ([0, 1], [1, 1], [1, 1])"
    using build_loop_continue [OF _ _ iter_nul2_1] by simp
  also have "\<dots> = (2, [0, 1], [1, 1], [1, 1])"
    using build_loop_stop [of 2 2 insertion_sort "([0, 1], [1, 1], [1, 1])"] by simp
  finally show "build_loop insertion_sort 2 1 ([0, 1], [0, 0], [0, 0]) =
      (2, [0, 1], [1, 1], [1, 1])" .
qed

lemma steps_nul2:
  "doubling_steps insertion_sort True [CHR 0x00, CHR 0x00] =
     [(1, [0, 1], [0, 0], [0, 0])]"
proof -
  have a: "length [CHR 0x00, CHR 0x00] = 2" by simp
  have b: "[0..<2] = [0, 1]" by code_simp
  have c: "map (char_to_int True) [CHR 0x00, CHR 0x00] = [0, 0]"
    by code_simp
  have d: "replicate 2 0 = ([0, 0] :: int list)" by code_simp
  have t0: "build_trace insertion_sort 2 1 ([0, 1], [0, 0], [0, 0]) =
      [(1, [0, 1], [0, 0], [0, 0])]"
    using build_trace_continue [OF _ _ iter_nul2_1]
      build_trace_stop [of 2 2 insertion_sort "([0, 1], [1, 1], [1, 1])"] by simp
  show ?thesis unfolding doubling_steps_init a b c d t0 ..
qed

lemma phi_nul2:
  "build_phi (SuffixArray insertion_sort True [CHR 0x00, CHR 0x00]) = Inr [- 1, 0]"
  unfolding obj_nul2 by code_simp

lemma plcp_nul2_all:
  "plcp_loop [CHR 0x00, CHR 0x00] [- 1, 0] [0..<2] (replicate 2 0, 0, 0, []) =
     Inl OutOfBounds"
  by code_simp

lemma run_nul2:
  "findLCP_run (SuffixArray insertion_sort True [CHR 0x00, CHR 0x00]) =
     Inl OutOfBounds"
  using findLCP_run_eval [OF phi_nul2] plcp_nul2_all unfolding obj_nul2 by simp

lemma lcp_nul2:
  "findLCP (SuffixArray insertion_sort True [CHR 0x00, CHR 0x00]) = Inl OutOfBounds"
  unfolding findLCP_def run_nul2 by simp

lemma iter_nul2u_1:
  "build_iter insertion_sort 2 1 ([0, 1], [0, 0], [0, 0]) =
     ([0, 1], [1, 1], [1, 1])"
proof (rule build_iter_eval)
  show "insertion_sort (cmp 2 1 [0, 0]) [0, 1] = [0, 1]"
    by code_simp
  show "rank_pass 2 1 [0, 0] [0, 1] [0, 0] =
      [1, 1]"
    by code_simp
  show "copy_pass 2 [0, 1] [1, 1] [0, 0] =
      [1, 1]"
    by code_simp
qed

lemma obj_nul2u:
  "SuffixArray insertion_sort False [CHR 0x00, CHR 0x00] =
     \<lparr>this_s = [CHR 0x00, CHR 0x00], this_n = 2, this_k = 2,
      this_sa = [0, 1], this_ra = [1, 1], this_rb = [1, 1]\<rparr>"
proof (rule SuffixArray_eval)
  show "length [CHR 0x00, CHR 0x00] = 2" by simp
  show "[0..<2] = [0, 1]" by code_simp
  show "map (char_to_int False) [CHR 0x00, CHR 0x00] = [0, 0]"
    by code_simp
  show "replicate 2 0 = ([0, 0] :: int list)" by code_simp
  have "build_loop insertion_sort 2 1 ([0, 1], [0, 0], [0, 0]) =
      build_loop insertion_sort 2 2 ([0, 1], [1, 1], [1, 1])"
    using build_loop_continue [OF _ _ iter_nul2u_1] by simp
  also have "\<dots> = (2, [0, 1], [1, 1], [1, 1])"
    using build_loop_stop [of 2 2 insertion_sort "([0, 1], [1, 1], [1, 1])"] by simp
  finally show "build_loop insertion_sort 2 1 ([0, 1], [0, 0], [0, 0]) =
      (2, [0, 1], [1, 1], [1, 1])" .
qed

lemma iter_nul3_1:
  "build_iter insertion_sort 3 1 ([0, 1, 2], [0, 0, 0], [0, 0, 0]) =
     ([0, 1, 2], [1, 1, 1], [1, 1, 1])"
proof (rule build_iter_eval)
  show "insertion_sort (cmp 3 1 [0, 0, 0]) [0, 1, 2] = [0, 1, 2]"
    by code_simp
  show "rank_pass 3 1 [0, 0, 0] [0, 1, 2] [0, 0, 0] =
      [1, 1, 1]"
    by code_simp
  show "copy_pass 3 [0, 1, 2] [1, 1, 1] [0, 0, 0] =
      [1, 1, 1]"
    by code_simp
qed

lemma iter_nul3_2:
  "build_iter insertion_sort 3 2 ([0, 1, 2], [1, 1, 1], [1, 1, 1]) =
     ([1, 2, 0], [2, 1, 1], [2, 1, 1])"
proof (rule build_iter_eval)
  show "insertion_sort (cmp 3 2 [1, 1, 1]) [0, 1, 2] = [1, 2, 0]"
    by code_simp
  show "rank_pass 3 2 [1, 1, 1] [1, 2, 0] [1, 1, 1] =
      [2, 1, 1]"
    by code_simp
  show "copy_pass 3 [1, 2, 0] [2, 1, 1] [1, 1, 1] =
      [2, 1, 1]"
    by code_simp
qed

lemma obj_nul3:
  "SuffixArray insertion_sort True [CHR 0x00, CHR 0x00, CHR 0x00] =
     \<lparr>this_s = [CHR 0x00, CHR 0x00, CHR 0x00], this_n = 3, this_k = 4,
      this_sa = [1, 2, 0], this_ra = [2, 1, 1], this_rb = [2, 1, 1]\<rparr>"
proof (rule SuffixArray_eval)
  show "length [CHR 0x00, CHR 0x00, CHR 0x00] = 3" by simp
  show "[0..<3] = [0, 1, 2]" by code_simp
  show "map (char_to_int True) [CHR 0x00, CHR 0x00, CHR 0x00] = [0, 0, 0]"
    by code_simp
  show "replicate 3 0 = ([0, 0, 0] :: int list)" by code_simp
  have "build_loop insertion_sort 3 1 ([0, 1, 2], [0, 0, 0], [0, 0, 0]) =
      build_loop insertion_sort 3 2 ([0, 1, 2], [1, 1, 1], [1, 1, 1])"
    using build_loop_continue [OF _ _ iter_nul3_1] by simp
  also have "\<dots> =
      build_loop insertion_sort 3 4 ([1, 2, 0], [2, 1, 1], [2, 1, 1])"
    using build_loop_continue [OF _ _ iter_nul3_2] by simp
  also have "\<dots> = (4, [1, 2, 0], [2, 1, 1], [2, 1, 1])"
    using build_loop_stop [of 4 3 insertion_sort "([1, 2, 0], [2, 1, 1], [2, 1, 1])"] by simp
  finally show "build_loop insertion_sort 3 1 ([0, 1, 2], [0, 0, 0], [0, 0, 0]) =
      (4, [1, 2, 0], [2, 1, 1], [2, 1, 1])" .
qed

lemma find_nul3_nul2:
  "find_sa (SuffixArray insertion_sort True [CHR 0x00, CHR 0x00, CHR 0x00]) [CHR 0x00, CHR 0x00] = Inr [0]"
  unfolding obj_nul3 by code_simp

subsection \<open>Texts with bytes from 128 on, \<^verbatim>\<open>char\<close> signed\<close>

lemma iter_hi2_1:
  "build_iter insertion_sort 2 1 ([0, 1], [1, - 56], [0, 0]) =
     ([1, 0], [2, 1], [2, 1])"
proof (rule build_iter_eval)
  show "insertion_sort (cmp 2 1 [1, - 56]) [0, 1] = [1, 0]"
    by code_simp
  show "rank_pass 2 1 [1, - 56] [1, 0] [0, 0] =
      [2, 1]"
    by code_simp
  show "copy_pass 2 [1, 0] [2, 1] [1, - 56] =
      [2, 1]"
    by code_simp
qed

lemma obj_hi2:
  "SuffixArray insertion_sort True [CHR 0x01, CHR 0xC8] =
     \<lparr>this_s = [CHR 0x01, CHR 0xC8], this_n = 2, this_k = 1,
      this_sa = [1, 0], this_ra = [2, 1], this_rb = [2, 1]\<rparr>"
proof (rule SuffixArray_eval)
  show "length [CHR 0x01, CHR 0xC8] = 2" by simp
  show "[0..<2] = [0, 1]" by code_simp
  show "map (char_to_int True) [CHR 0x01, CHR 0xC8] = [1, - 56]"
    by code_simp
  show "replicate 2 0 = ([0, 0] :: int list)" by code_simp
  show "build_loop insertion_sort 2 1 ([0, 1], [1, - 56], [0, 0]) =
      (1, [1, 0], [2, 1], [2, 1])"
    using build_loop_break [OF _ _ iter_hi2_1] by simp
qed

lemma find_hi2_one:
  "find_sa (SuffixArray insertion_sort True [CHR 0x01, CHR 0xC8]) [CHR 0x01] = Inr []"
  unfolding obj_hi2 by code_simp

lemma iter_hi3_1:
  "build_iter insertion_sort 3 1 ([0, 1, 2], [- 56, - 56, - 56], [0, 0, 0]) =
     ([0, 1, 2], [1, 1, 2], [1, 1, 2])"
proof (rule build_iter_eval)
  show "insertion_sort (cmp 3 1 [- 56, - 56, - 56]) [0, 1, 2] = [0, 1, 2]"
    by code_simp
  show "rank_pass 3 1 [- 56, - 56, - 56] [0, 1, 2] [0, 0, 0] =
      [1, 1, 2]"
    by code_simp
  show "copy_pass 3 [0, 1, 2] [1, 1, 2] [- 56, - 56, - 56] =
      [1, 1, 2]"
    by code_simp
qed

lemma iter_hi3_2:
  "build_iter insertion_sort 3 2 ([0, 1, 2], [1, 1, 2], [1, 1, 2]) =
     ([1, 0, 2], [2, 1, 3], [2, 1, 3])"
proof (rule build_iter_eval)
  show "insertion_sort (cmp 3 2 [1, 1, 2]) [0, 1, 2] = [1, 0, 2]"
    by code_simp
  show "rank_pass 3 2 [1, 1, 2] [1, 0, 2] [1, 1, 2] =
      [2, 1, 3]"
    by code_simp
  show "copy_pass 3 [1, 0, 2] [2, 1, 3] [1, 1, 2] =
      [2, 1, 3]"
    by code_simp
qed

lemma obj_hi3:
  "SuffixArray insertion_sort True [CHR 0xC8, CHR 0xC8, CHR 0xC8] =
     \<lparr>this_s = [CHR 0xC8, CHR 0xC8, CHR 0xC8], this_n = 3, this_k = 2,
      this_sa = [1, 0, 2], this_ra = [2, 1, 3], this_rb = [2, 1, 3]\<rparr>"
proof (rule SuffixArray_eval)
  show "length [CHR 0xC8, CHR 0xC8, CHR 0xC8] = 3" by simp
  show "[0..<3] = [0, 1, 2]" by code_simp
  show "map (char_to_int True) [CHR 0xC8, CHR 0xC8, CHR 0xC8] = [- 56, - 56, - 56]"
    by code_simp
  show "replicate 3 0 = ([0, 0, 0] :: int list)" by code_simp
  have "build_loop insertion_sort 3 1 ([0, 1, 2], [- 56, - 56, - 56], [0, 0, 0]) =
      build_loop insertion_sort 3 2 ([0, 1, 2], [1, 1, 2], [1, 1, 2])"
    using build_loop_continue [OF _ _ iter_hi3_1] by simp
  also have "\<dots> =
      (2, [1, 0, 2], [2, 1, 3], [2, 1, 3])"
    using build_loop_break [OF _ _ iter_hi3_2] by simp
  finally show "build_loop insertion_sort 3 1 ([0, 1, 2], [- 56, - 56, - 56], [0, 0, 0]) =
      (2, [1, 0, 2], [2, 1, 3], [2, 1, 3])" .
qed

lemma phi_hi3:
  "build_phi (SuffixArray insertion_sort True [CHR 0xC8, CHR 0xC8, CHR 0xC8]) = Inr [1, - 1, 0]"
  unfolding obj_hi3 by code_simp

lemma plcp_hi3_all:
  "plcp_loop [CHR 0xC8, CHR 0xC8, CHR 0xC8] [1, - 1, 0] [0..<3] (replicate 3 0, 0, 0, []) =
     Inr ([2, 0, 1], 0, 2, [CHR 0xC8, CHR 0xC8])"
  by code_simp

lemma run_hi3:
  "findLCP_run (SuffixArray insertion_sort True [CHR 0xC8, CHR 0xC8, CHR 0xC8]) =
     Inr ([2, 0, 1], 0, 2, [CHR 0xC8, CHR 0xC8])"
  using findLCP_run_eval [OF phi_hi3] plcp_hi3_all unfolding obj_hi3 by simp

lemma iter_hi4_1:
  "build_iter insertion_sort 4 1 ([0, 1, 2, 3], [- 56, - 56, - 56, - 56], [0, 0, 0, 0]) =
     ([0, 1, 2, 3], [1, 1, 1, 2], [1, 1, 1, 2])"
proof (rule build_iter_eval)
  show "insertion_sort (cmp 4 1 [- 56, - 56, - 56, - 56]) [0, 1, 2, 3] = [0, 1, 2, 3]"
    by code_simp
  show "rank_pass 4 1 [- 56, - 56, - 56, - 56] [0, 1, 2, 3] [0, 0, 0, 0] =
      [1, 1, 1, 2]"
    by code_simp
  show "copy_pass 4 [0, 1, 2, 3] [1, 1, 1, 2] [- 56, - 56, - 56, - 56] =
      [1, 1, 1, 2]"
    by code_simp
qed

lemma iter_hi4_2:
  "build_iter insertion_sort 4 2 ([0, 1, 2, 3], [1, 1, 1, 2], [1, 1, 1, 2]) =
     ([2, 0, 1, 3], [2, 3, 1, 4], [2, 3, 1, 4])"
proof (rule build_iter_eval)
  show "insertion_sort (cmp 4 2 [1, 1, 1, 2]) [0, 1, 2, 3] = [2, 0, 1, 3]"
    by code_simp
  show "rank_pass 4 2 [1, 1, 1, 2] [2, 0, 1, 3] [1, 1, 1, 2] =
      [2, 3, 1, 4]"
    by code_simp
  show "copy_pass 4 [2, 0, 1, 3] [2, 3, 1, 4] [1, 1, 1, 2] =
      [2, 3, 1, 4]"
    by code_simp
qed

lemma obj_hi4:
  "SuffixArray insertion_sort True [CHR 0xC8, CHR 0xC8, CHR 0xC8, CHR 0xC8] =
     \<lparr>this_s = [CHR 0xC8, CHR 0xC8, CHR 0xC8, CHR 0xC8], this_n = 4, this_k = 2,
      this_sa = [2, 0, 1, 3], this_ra = [2, 3, 1, 4], this_rb = [2, 3, 1, 4]\<rparr>"
proof (rule SuffixArray_eval)
  show "length [CHR 0xC8, CHR 0xC8, CHR 0xC8, CHR 0xC8] = 4" by simp
  show "[0..<4] = [0, 1, 2, 3]" by code_simp
  show "map (char_to_int True) [CHR 0xC8, CHR 0xC8, CHR 0xC8, CHR 0xC8] = [- 56, - 56, - 56, - 56]"
    by code_simp
  show "replicate 4 0 = ([0, 0, 0, 0] :: int list)" by code_simp
  have "build_loop insertion_sort 4 1 ([0, 1, 2, 3], [- 56, - 56, - 56, - 56], [0, 0, 0, 0]) =
      build_loop insertion_sort 4 2 ([0, 1, 2, 3], [1, 1, 1, 2], [1, 1, 1, 2])"
    using build_loop_continue [OF _ _ iter_hi4_1] by simp
  also have "\<dots> =
      (2, [2, 0, 1, 3], [2, 3, 1, 4], [2, 3, 1, 4])"
    using build_loop_break [OF _ _ iter_hi4_2] by simp
  finally show "build_loop insertion_sort 4 1 ([0, 1, 2, 3], [- 56, - 56, - 56, - 56], [0, 0, 0, 0]) =
      (2, [2, 0, 1, 3], [2, 3, 1, 4], [2, 3, 1, 4])" .
qed

lemma phi_hi4:
  "build_phi (SuffixArray insertion_sort True [CHR 0xC8, CHR 0xC8, CHR 0xC8, CHR 0xC8]) = Inr [2, 0, - 1, 1]"
  unfolding obj_hi4 by code_simp

lemma plcp_hi4_3:
  "plcp_loop [CHR 0xC8, CHR 0xC8, CHR 0xC8, CHR 0xC8] [2, 0, - 1, 1] [0..<3] (replicate 4 0, 0, 0, []) =
     Inr ([2, 3, 0, 0], 2, 3, [CHR 0xC8, CHR 0xC8, CHR 0xC8])"
  by code_simp

lemma extend_hi4_3:
  "lcp_extend [CHR 0xC8, CHR 0xC8, CHR 0xC8, CHR 0xC8] 3 1 2 = Inl OutOfBounds"
  by code_simp

lemma plcp_hi4_all:
  "plcp_loop [CHR 0xC8, CHR 0xC8, CHR 0xC8, CHR 0xC8] [2, 0, - 1, 1] [0..<4] (replicate 4 0, 0, 0, []) =
     Inl OutOfBounds"
  by code_simp

lemma run_hi4:
  "findLCP_run (SuffixArray insertion_sort True [CHR 0xC8, CHR 0xC8, CHR 0xC8, CHR 0xC8]) =
     Inl OutOfBounds"
  using findLCP_run_eval [OF phi_hi4] plcp_hi4_all unfolding obj_hi4 by simp

lemma lcp_hi4:
  "findLCP (SuffixArray insertion_sort True [CHR 0xC8, CHR 0xC8, CHR 0xC8, CHR 0xC8]) = Inl OutOfBounds"
  unfolding findLCP_def run_hi4 by simp

lemma iter_hi4u_1:
  "build_iter insertion_sort 4 1 ([0, 1, 2, 3], [200, 200, 200, 200], [0, 0, 0, 0]) =
     ([3, 0, 1, 2], [2, 2, 2, 1], [2, 2, 2, 1])"
proof (rule build_iter_eval)
  show "insertion_sort (cmp 4 1 [200, 200, 200, 200]) [0, 1, 2, 3] = [3, 0, 1, 2]"
    by code_simp
  show "rank_pass 4 1 [200, 200, 200, 200] [3, 0, 1, 2] [0, 0, 0, 0] =
      [2, 2, 2, 1]"
    by code_simp
  show "copy_pass 4 [3, 0, 1, 2] [2, 2, 2, 1] [200, 200, 200, 200] =
      [2, 2, 2, 1]"
    by code_simp
qed

lemma iter_hi4u_2:
  "build_iter insertion_sort 4 2 ([3, 0, 1, 2], [2, 2, 2, 1], [2, 2, 2, 1]) =
     ([3, 2, 1, 0], [4, 3, 2, 1], [4, 3, 2, 1])"
proof (rule build_iter_eval)
  show "insertion_sort (cmp 4 2 [2, 2, 2, 1]) [3, 0, 1, 2] = [3, 2, 1, 0]"
    by code_simp
  show "rank_pass 4 2 [2, 2, 2, 1] [3, 2, 1, 0] [2, 2, 2, 1] =
      [4, 3, 2, 1]"
    by code_simp
  show "copy_pass 4 [3, 2, 1, 0] [4, 3, 2, 1] [2, 2, 2, 1] =
      [4, 3, 2, 1]"
    by code_simp
qed

lemma obj_hi4u:
  "SuffixArray insertion_sort False [CHR 0xC8, CHR 0xC8, CHR 0xC8, CHR 0xC8] =
     \<lparr>this_s = [CHR 0xC8, CHR 0xC8, CHR 0xC8, CHR 0xC8], this_n = 4, this_k = 2,
      this_sa = [3, 2, 1, 0], this_ra = [4, 3, 2, 1], this_rb = [4, 3, 2, 1]\<rparr>"
proof (rule SuffixArray_eval)
  show "length [CHR 0xC8, CHR 0xC8, CHR 0xC8, CHR 0xC8] = 4" by simp
  show "[0..<4] = [0, 1, 2, 3]" by code_simp
  show "map (char_to_int False) [CHR 0xC8, CHR 0xC8, CHR 0xC8, CHR 0xC8] = [200, 200, 200, 200]"
    by code_simp
  show "replicate 4 0 = ([0, 0, 0, 0] :: int list)" by code_simp
  have "build_loop insertion_sort 4 1 ([0, 1, 2, 3], [200, 200, 200, 200], [0, 0, 0, 0]) =
      build_loop insertion_sort 4 2 ([3, 0, 1, 2], [2, 2, 2, 1], [2, 2, 2, 1])"
    using build_loop_continue [OF _ _ iter_hi4u_1] by simp
  also have "\<dots> =
      (2, [3, 2, 1, 0], [4, 3, 2, 1], [4, 3, 2, 1])"
    using build_loop_break [OF _ _ iter_hi4u_2] by simp
  finally show "build_loop insertion_sort 4 1 ([0, 1, 2, 3], [200, 200, 200, 200], [0, 0, 0, 0]) =
      (2, [3, 2, 1, 0], [4, 3, 2, 1], [4, 3, 2, 1])" .
qed

lemma phi_hi4u:
  "build_phi (SuffixArray insertion_sort False [CHR 0xC8, CHR 0xC8, CHR 0xC8, CHR 0xC8]) = Inr [1, 2, 3, - 1]"
  unfolding obj_hi4u by code_simp

lemma extend_hi4u_0:
  "lcp_extend [CHR 0xC8, CHR 0xC8, CHR 0xC8, CHR 0xC8] 0 1 0 = Inr 3"
  by code_simp

lemma plcp_hi4u_all:
  "plcp_loop [CHR 0xC8, CHR 0xC8, CHR 0xC8, CHR 0xC8] [1, 2, 3, - 1] [0..<4] (replicate 4 0, 0, 0, []) =
     Inr ([3, 2, 1, 0], 0, 3, [CHR 0xC8, CHR 0xC8, CHR 0xC8])"
  by code_simp

lemma run_hi4u:
  "findLCP_run (SuffixArray insertion_sort False [CHR 0xC8, CHR 0xC8, CHR 0xC8, CHR 0xC8]) =
     Inr ([3, 2, 1, 0], 0, 3, [CHR 0xC8, CHR 0xC8, CHR 0xC8])"
  using findLCP_run_eval [OF phi_hi4u] plcp_hi4u_all unfolding obj_hi4u by simp

lemma lcp_hi4u:
  "findLCP (SuffixArray insertion_sort False [CHR 0xC8, CHR 0xC8, CHR 0xC8, CHR 0xC8]) = Inr [CHR 0xC8, CHR 0xC8, CHR 0xC8]"
  unfolding findLCP_def run_hi4u by simp

lemma iter_hi6_1:
  "build_iter insertion_sort 6 1 ([0, 1, 2, 3, 4, 5], [- 56, 1, - 56, 2, - 56, 2], [0, 0, 0, 0, 0, 0]) =
     ([0, 2, 4, 1, 3, 5], [1, 3, 2, 4, 2, 5], [1, 3, 2, 4, 2, 5])"
proof (rule build_iter_eval)
  show "insertion_sort (cmp 6 1 [- 56, 1, - 56, 2, - 56, 2]) [0, 1, 2, 3, 4, 5] = [0, 2, 4, 1, 3, 5]"
    by code_simp
  show "rank_pass 6 1 [- 56, 1, - 56, 2, - 56, 2] [0, 2, 4, 1, 3, 5] [0, 0, 0, 0, 0, 0] =
      [1, 3, 2, 4, 2, 5]"
    by code_simp
  show "copy_pass 6 [0, 2, 4, 1, 3, 5] [1, 3, 2, 4, 2, 5] [- 56, 1, - 56, 2, - 56, 2] =
      [1, 3, 2, 4, 2, 5]"
    by code_simp
qed

lemma iter_hi6_2:
  "build_iter insertion_sort 6 2 ([0, 2, 4, 1, 3, 5], [1, 3, 2, 4, 2, 5], [1, 3, 2, 4, 2, 5]) =
     ([0, 4, 2, 1, 3, 5], [1, 4, 3, 5, 2, 6], [1, 4, 3, 5, 2, 6])"
proof (rule build_iter_eval)
  show "insertion_sort (cmp 6 2 [1, 3, 2, 4, 2, 5]) [0, 2, 4, 1, 3, 5] = [0, 4, 2, 1, 3, 5]"
    by code_simp
  show "rank_pass 6 2 [1, 3, 2, 4, 2, 5] [0, 4, 2, 1, 3, 5] [1, 3, 2, 4, 2, 5] =
      [1, 4, 3, 5, 2, 6]"
    by code_simp
  show "copy_pass 6 [0, 4, 2, 1, 3, 5] [1, 4, 3, 5, 2, 6] [1, 3, 2, 4, 2, 5] =
      [1, 4, 3, 5, 2, 6]"
    by code_simp
qed

lemma obj_hi6:
  "SuffixArray insertion_sort True [CHR 0xC8, CHR 0x01, CHR 0xC8, CHR 0x02, CHR 0xC8, CHR 0x02] =
     \<lparr>this_s = [CHR 0xC8, CHR 0x01, CHR 0xC8, CHR 0x02, CHR 0xC8, CHR 0x02], this_n = 6, this_k = 2,
      this_sa = [0, 4, 2, 1, 3, 5], this_ra = [1, 4, 3, 5, 2, 6], this_rb = [1, 4, 3, 5, 2, 6]\<rparr>"
proof (rule SuffixArray_eval)
  show "length [CHR 0xC8, CHR 0x01, CHR 0xC8, CHR 0x02, CHR 0xC8, CHR 0x02] = 6" by simp
  show "[0..<6] = [0, 1, 2, 3, 4, 5]" by code_simp
  show "map (char_to_int True) [CHR 0xC8, CHR 0x01, CHR 0xC8, CHR 0x02, CHR 0xC8, CHR 0x02] = [- 56, 1, - 56, 2, - 56, 2]"
    by code_simp
  show "replicate 6 0 = ([0, 0, 0, 0, 0, 0] :: int list)" by code_simp
  have "build_loop insertion_sort 6 1 ([0, 1, 2, 3, 4, 5], [- 56, 1, - 56, 2, - 56, 2], [0, 0, 0, 0, 0, 0]) =
      build_loop insertion_sort 6 2 ([0, 2, 4, 1, 3, 5], [1, 3, 2, 4, 2, 5], [1, 3, 2, 4, 2, 5])"
    using build_loop_continue [OF _ _ iter_hi6_1] by simp
  also have "\<dots> =
      (2, [0, 4, 2, 1, 3, 5], [1, 4, 3, 5, 2, 6], [1, 4, 3, 5, 2, 6])"
    using build_loop_break [OF _ _ iter_hi6_2] by simp
  finally show "build_loop insertion_sort 6 1 ([0, 1, 2, 3, 4, 5], [- 56, 1, - 56, 2, - 56, 2], [0, 0, 0, 0, 0, 0]) =
      (2, [0, 4, 2, 1, 3, 5], [1, 4, 3, 5, 2, 6], [1, 4, 3, 5, 2, 6])" .
qed

lemma phi_hi6:
  "build_phi (SuffixArray insertion_sort True [CHR 0xC8, CHR 0x01, CHR 0xC8, CHR 0x02, CHR 0xC8, CHR 0x02]) = Inr [- 1, 2, 4, 1, 0, 3]"
  unfolding obj_hi6 by code_simp

lemma plcp_hi6_all:
  "plcp_loop [CHR 0xC8, CHR 0x01, CHR 0xC8, CHR 0x02, CHR 0xC8, CHR 0x02] [- 1, 2, 4, 1, 0, 3] [0..<6] (replicate 6 0, 0, 0, []) =
     Inr ([0, 0, 2, 3, 2, 1], 0, 3, [CHR 0x02, CHR 0xC8, CHR 0x02])"
  by code_simp

lemma run_hi6:
  "findLCP_run (SuffixArray insertion_sort True [CHR 0xC8, CHR 0x01, CHR 0xC8, CHR 0x02, CHR 0xC8, CHR 0x02]) =
     Inr ([0, 0, 2, 3, 2, 1], 0, 3, [CHR 0x02, CHR 0xC8, CHR 0x02])"
  using findLCP_run_eval [OF phi_hi6] plcp_hi6_all unfolding obj_hi6 by simp

lemma lcp_hi6:
  "findLCP (SuffixArray insertion_sort True [CHR 0xC8, CHR 0x01, CHR 0xC8, CHR 0x02, CHR 0xC8, CHR 0x02]) = Inr [CHR 0x02, CHR 0xC8, CHR 0x02]"
  unfolding findLCP_def run_hi6 by simp

lemma pairs_hi6:
  "list_all (\<lambda>i. list_all (\<lambda>j. i = j \<or>
       lcpl (drop i [CHR 0xC8, CHR 0x01, CHR 0xC8, CHR 0x02, CHR 0xC8, CHR 0x02])
            (drop j [CHR 0xC8, CHR 0x01, CHR 0xC8, CHR 0x02, CHR 0xC8, CHR 0x02]) < 3)
     [0..<6]) [0..<6]"
  by code_simp

subsection \<open>The texts of the scenarios of the specification\<close>

lemma iter_GATAGACA_1:
  "build_iter insertion_sort 8 1 ([0, 1, 2, 3, 4, 5, 6, 7], [71, 65, 84, 65, 71, 65, 67, 65], [0, 0, 0, 0, 0, 0, 0, 0]) =
     ([7, 5, 3, 1, 6, 0, 4, 2], [6, 4, 7, 3, 6, 2, 5, 1], [6, 4, 7, 3, 6, 2, 5, 1])"
proof (rule build_iter_eval)
  show "insertion_sort (cmp 8 1 [71, 65, 84, 65, 71, 65, 67, 65]) [0, 1, 2, 3, 4, 5, 6, 7] = [7, 5, 3, 1, 6, 0, 4, 2]"
    by code_simp
  show "rank_pass 8 1 [71, 65, 84, 65, 71, 65, 67, 65] [7, 5, 3, 1, 6, 0, 4, 2] [0, 0, 0, 0, 0, 0, 0, 0] =
      [6, 4, 7, 3, 6, 2, 5, 1]"
    by code_simp
  show "copy_pass 8 [7, 5, 3, 1, 6, 0, 4, 2] [6, 4, 7, 3, 6, 2, 5, 1] [71, 65, 84, 65, 71, 65, 67, 65] =
      [6, 4, 7, 3, 6, 2, 5, 1]"
    by code_simp
qed

lemma iter_GATAGACA_2:
  "build_iter insertion_sort 8 2 ([7, 5, 3, 1, 6, 0, 4, 2], [6, 4, 7, 3, 6, 2, 5, 1], [6, 4, 7, 3, 6, 2, 5, 1]) =
     ([7, 5, 3, 1, 6, 4, 0, 2], [7, 4, 8, 3, 6, 2, 5, 1], [7, 4, 8, 3, 6, 2, 5, 1])"
proof (rule build_iter_eval)
  show "insertion_sort (cmp 8 2 [6, 4, 7, 3, 6, 2, 5, 1]) [7, 5, 3, 1, 6, 0, 4, 2] = [7, 5, 3, 1, 6, 4, 0, 2]"
    by code_simp
  show "rank_pass 8 2 [6, 4, 7, 3, 6, 2, 5, 1] [7, 5, 3, 1, 6, 4, 0, 2] [6, 4, 7, 3, 6, 2, 5, 1] =
      [7, 4, 8, 3, 6, 2, 5, 1]"
    by code_simp
  show "copy_pass 8 [7, 5, 3, 1, 6, 4, 0, 2] [7, 4, 8, 3, 6, 2, 5, 1] [6, 4, 7, 3, 6, 2, 5, 1] =
      [7, 4, 8, 3, 6, 2, 5, 1]"
    by code_simp
qed

lemma obj_GATAGACA:
  "SuffixArray insertion_sort True ''GATAGACA'' =
     \<lparr>this_s = ''GATAGACA'', this_n = 8, this_k = 2,
      this_sa = [7, 5, 3, 1, 6, 4, 0, 2], this_ra = [7, 4, 8, 3, 6, 2, 5, 1], this_rb = [7, 4, 8, 3, 6, 2, 5, 1]\<rparr>"
proof (rule SuffixArray_eval)
  show "length ''GATAGACA'' = 8" by simp
  show "[0..<8] = [0, 1, 2, 3, 4, 5, 6, 7]" by code_simp
  show "map (char_to_int True) ''GATAGACA'' = [71, 65, 84, 65, 71, 65, 67, 65]"
    by code_simp
  show "replicate 8 0 = ([0, 0, 0, 0, 0, 0, 0, 0] :: int list)" by code_simp
  have "build_loop insertion_sort 8 1 ([0, 1, 2, 3, 4, 5, 6, 7], [71, 65, 84, 65, 71, 65, 67, 65], [0, 0, 0, 0, 0, 0, 0, 0]) =
      build_loop insertion_sort 8 2 ([7, 5, 3, 1, 6, 0, 4, 2], [6, 4, 7, 3, 6, 2, 5, 1], [6, 4, 7, 3, 6, 2, 5, 1])"
    using build_loop_continue [OF _ _ iter_GATAGACA_1] by simp
  also have "\<dots> =
      (2, [7, 5, 3, 1, 6, 4, 0, 2], [7, 4, 8, 3, 6, 2, 5, 1], [7, 4, 8, 3, 6, 2, 5, 1])"
    using build_loop_break [OF _ _ iter_GATAGACA_2] by simp
  finally show "build_loop insertion_sort 8 1 ([0, 1, 2, 3, 4, 5, 6, 7], [71, 65, 84, 65, 71, 65, 67, 65], [0, 0, 0, 0, 0, 0, 0, 0]) =
      (2, [7, 5, 3, 1, 6, 4, 0, 2], [7, 4, 8, 3, 6, 2, 5, 1], [7, 4, 8, 3, 6, 2, 5, 1])" .
qed

lemma find_GATAGACA_GA:
  "find_sa (SuffixArray insertion_sort True ''GATAGACA'') ''GA'' = Inr [4, 0]"
  unfolding obj_GATAGACA by code_simp

lemma phi_GATAGACA:
  "build_phi (SuffixArray insertion_sort True ''GATAGACA'') = Inr [4, 3, 0, 5, 6, 7, 1, - 1]"
  unfolding obj_GATAGACA by code_simp

lemma plcp_GATAGACA_all:
  "plcp_loop ''GATAGACA'' [4, 3, 0, 5, 6, 7, 1, - 1] [0..<8] (replicate 8 0, 0, 0, []) =
     Inr ([2, 1, 0, 1, 0, 1, 0, 0], 0, 2, ''GA'')"
  by code_simp

lemma run_GATAGACA:
  "findLCP_run (SuffixArray insertion_sort True ''GATAGACA'') =
     Inr ([2, 1, 0, 1, 0, 1, 0, 0], 0, 2, ''GA'')"
  using findLCP_run_eval [OF phi_GATAGACA] plcp_GATAGACA_all unfolding obj_GATAGACA by simp

lemma lcp_GATAGACA:
  "findLCP (SuffixArray insertion_sort True ''GATAGACA'') = Inr ''GA''"
  unfolding findLCP_def run_GATAGACA by simp

lemma iter_AAAA_1:
  "build_iter insertion_sort 4 1 ([0, 1, 2, 3], [65, 65, 65, 65], [0, 0, 0, 0]) =
     ([3, 0, 1, 2], [2, 2, 2, 1], [2, 2, 2, 1])"
proof (rule build_iter_eval)
  show "insertion_sort (cmp 4 1 [65, 65, 65, 65]) [0, 1, 2, 3] = [3, 0, 1, 2]"
    by code_simp
  show "rank_pass 4 1 [65, 65, 65, 65] [3, 0, 1, 2] [0, 0, 0, 0] =
      [2, 2, 2, 1]"
    by code_simp
  show "copy_pass 4 [3, 0, 1, 2] [2, 2, 2, 1] [65, 65, 65, 65] =
      [2, 2, 2, 1]"
    by code_simp
qed

lemma iter_AAAA_2:
  "build_iter insertion_sort 4 2 ([3, 0, 1, 2], [2, 2, 2, 1], [2, 2, 2, 1]) =
     ([3, 2, 1, 0], [4, 3, 2, 1], [4, 3, 2, 1])"
proof (rule build_iter_eval)
  show "insertion_sort (cmp 4 2 [2, 2, 2, 1]) [3, 0, 1, 2] = [3, 2, 1, 0]"
    by code_simp
  show "rank_pass 4 2 [2, 2, 2, 1] [3, 2, 1, 0] [2, 2, 2, 1] =
      [4, 3, 2, 1]"
    by code_simp
  show "copy_pass 4 [3, 2, 1, 0] [4, 3, 2, 1] [2, 2, 2, 1] =
      [4, 3, 2, 1]"
    by code_simp
qed

lemma obj_AAAA:
  "SuffixArray insertion_sort True ''AAAA'' =
     \<lparr>this_s = ''AAAA'', this_n = 4, this_k = 2,
      this_sa = [3, 2, 1, 0], this_ra = [4, 3, 2, 1], this_rb = [4, 3, 2, 1]\<rparr>"
proof (rule SuffixArray_eval)
  show "length ''AAAA'' = 4" by simp
  show "[0..<4] = [0, 1, 2, 3]" by code_simp
  show "map (char_to_int True) ''AAAA'' = [65, 65, 65, 65]"
    by code_simp
  show "replicate 4 0 = ([0, 0, 0, 0] :: int list)" by code_simp
  have "build_loop insertion_sort 4 1 ([0, 1, 2, 3], [65, 65, 65, 65], [0, 0, 0, 0]) =
      build_loop insertion_sort 4 2 ([3, 0, 1, 2], [2, 2, 2, 1], [2, 2, 2, 1])"
    using build_loop_continue [OF _ _ iter_AAAA_1] by simp
  also have "\<dots> =
      (2, [3, 2, 1, 0], [4, 3, 2, 1], [4, 3, 2, 1])"
    using build_loop_break [OF _ _ iter_AAAA_2] by simp
  finally show "build_loop insertion_sort 4 1 ([0, 1, 2, 3], [65, 65, 65, 65], [0, 0, 0, 0]) =
      (2, [3, 2, 1, 0], [4, 3, 2, 1], [4, 3, 2, 1])" .
qed

lemma phi_AAAA:
  "build_phi (SuffixArray insertion_sort True ''AAAA'') = Inr [1, 2, 3, - 1]"
  unfolding obj_AAAA by code_simp

lemma plcp_AAAA_all:
  "plcp_loop ''AAAA'' [1, 2, 3, - 1] [0..<4] (replicate 4 0, 0, 0, []) =
     Inr ([3, 2, 1, 0], 0, 3, ''AAA'')"
  by code_simp

lemma run_AAAA:
  "findLCP_run (SuffixArray insertion_sort True ''AAAA'') =
     Inr ([3, 2, 1, 0], 0, 3, ''AAA'')"
  using findLCP_run_eval [OF phi_AAAA] plcp_AAAA_all unfolding obj_AAAA by simp

lemma lcp_AAAA:
  "findLCP (SuffixArray insertion_sort True ''AAAA'') = Inr ''AAA''"
  unfolding findLCP_def run_AAAA by simp

lemma iter_ABCDE_1:
  "build_iter insertion_sort 5 1 ([0, 1, 2, 3, 4], [65, 66, 67, 68, 69], [0, 0, 0, 0, 0]) =
     ([0, 1, 2, 3, 4], [1, 2, 3, 4, 5], [1, 2, 3, 4, 5])"
proof (rule build_iter_eval)
  show "insertion_sort (cmp 5 1 [65, 66, 67, 68, 69]) [0, 1, 2, 3, 4] = [0, 1, 2, 3, 4]"
    by code_simp
  show "rank_pass 5 1 [65, 66, 67, 68, 69] [0, 1, 2, 3, 4] [0, 0, 0, 0, 0] =
      [1, 2, 3, 4, 5]"
    by code_simp
  show "copy_pass 5 [0, 1, 2, 3, 4] [1, 2, 3, 4, 5] [65, 66, 67, 68, 69] =
      [1, 2, 3, 4, 5]"
    by code_simp
qed

lemma obj_ABCDE:
  "SuffixArray insertion_sort True ''ABCDE'' =
     \<lparr>this_s = ''ABCDE'', this_n = 5, this_k = 1,
      this_sa = [0, 1, 2, 3, 4], this_ra = [1, 2, 3, 4, 5], this_rb = [1, 2, 3, 4, 5]\<rparr>"
proof (rule SuffixArray_eval)
  show "length ''ABCDE'' = 5" by simp
  show "[0..<5] = [0, 1, 2, 3, 4]" by code_simp
  show "map (char_to_int True) ''ABCDE'' = [65, 66, 67, 68, 69]"
    by code_simp
  show "replicate 5 0 = ([0, 0, 0, 0, 0] :: int list)" by code_simp
  show "build_loop insertion_sort 5 1 ([0, 1, 2, 3, 4], [65, 66, 67, 68, 69], [0, 0, 0, 0, 0]) =
      (1, [0, 1, 2, 3, 4], [1, 2, 3, 4, 5], [1, 2, 3, 4, 5])"
    using build_loop_break [OF _ _ iter_ABCDE_1] by simp
qed

lemma phi_ABCDE:
  "build_phi (SuffixArray insertion_sort True ''ABCDE'') = Inr [- 1, 0, 1, 2, 3]"
  unfolding obj_ABCDE by code_simp

lemma plcp_ABCDE_all:
  "plcp_loop ''ABCDE'' [- 1, 0, 1, 2, 3] [0..<5] (replicate 5 0, 0, 0, []) =
     Inr ([0, 0, 0, 0, 0], 0, 0, [])"
  by code_simp

lemma run_ABCDE:
  "findLCP_run (SuffixArray insertion_sort True ''ABCDE'') =
     Inr ([0, 0, 0, 0, 0], 0, 0, [])"
  using findLCP_run_eval [OF phi_ABCDE] plcp_ABCDE_all unfolding obj_ABCDE by simp

lemma lcp_ABCDE:
  "findLCP (SuffixArray insertion_sort True ''ABCDE'') = Inr []"
  unfolding findLCP_def run_ABCDE by simp

section \<open>The claims\<close>

subsection \<open>C1: the suffix array is a sorted permutation\<close>

text \<open>
  C1, as amended. For every text and every sorting function that meets the requirement
  of \<^verbatim>\<open>std::sort\<close>, the array \<^verbatim>\<open>sa\<close> that the constructor leaves is a permutation of
  \<open>[0, n)\<close>. For every text whose characters all convert to a positive \<^verbatim>\<open>int\<close> (no NUL;
  no byte from 128 on where plain \<^verbatim>\<open>char\<close> is signed) it is sorted as well: for all
  ranks \<open>i < j\<close> the suffix starting at \<^verbatim>\<open>sa[i]\<close> is lexicographically at most the suffix
  starting at \<^verbatim>\<open>sa[j]\<close>.
\<close>

theorem build_sorted_permutation:
  assumes "sorts srt"
  shows "mset (this_sa (SuffixArray srt signed_char txt)) = mset [0..<length txt] \<and>
         (valid_text signed_char txt \<longrightarrow>
          (\<forall>i j. i < j \<and> j < length txt \<longrightarrow>
             drop (this_sa (SuffixArray srt signed_char txt) ! i) txt
               \<le> drop (this_sa (SuffixArray srt signed_char txt) ! j) txt))"
proof -
  let ?sa = "this_sa (SuffixArray srt signed_char txt)"
  have p: "mset ?sa = mset [0..<length txt]" by (rule SuffixArray_perm [OF assms(1)])
  have l: "length ?sa = length txt" using perm_upto_facts(1) [OF p] .
  have "\<forall>i j. i < j \<and> j < length txt \<longrightarrow> drop (?sa ! i) txt \<le> drop (?sa ! j) txt"
    if "valid_text signed_char txt"
    using l SuffixArray_sorted [OF assms that] unfolding sorted_suffixes_def
    by (simp add: sorted_wrt_iff_nth_less)
  then show ?thesis using p by blast
qed

text \<open>The theorem at the text \<open>abab\<close>, whose suffix array is \<open>[2, 0, 3, 1]\<close>.\<close>

theorem build_sorted_permutation_witness:
  "this_sa (SuffixArray insertion_sort True ''abab'') = [2, 0, 3, 1] \<and>
   mset (this_sa (SuffixArray insertion_sort True ''abab'')) = mset [0..<length ''abab''] \<and>
   drop (this_sa (SuffixArray insertion_sort True ''abab'') ! 0) ''abab''
     \<le> drop (this_sa (SuffixArray insertion_sort True ''abab'') ! 1) ''abab''"
proof -
  note t = build_sorted_permutation [OF insertion_sort_sorts, of True "''abab''"]
  have v: "this_sa (SuffixArray insertion_sort True ''abab'') = [2, 0, 3, 1]"
    unfolding obj_abab by simp
  have "(0::nat) < 1 \<and> 1 < length ''abab''" by simp
  with t v valid_text_abab show ?thesis by blast
qed

text \<open>
  C1 as stated fails on a text with NUL characters: the rank 0 of ``past the end'' is
  also the rank of NUL in the first iteration, so in the text of two NULs both
  suffixes get the key \<open>(0, 0)\<close>, the sort leaves them as they are, and the longer suffix
  stays before the shorter one. It does so whether plain \<^verbatim>\<open>char\<close> is signed or not. Where
  plain \<^verbatim>\<open>char\<close> is signed it fails also on the text of the bytes \<open>0x01\<close> and \<open>0xC8\<close>, which
  has no NUL: the second byte converts to \<open>-56\<close>, so its suffix comes first, and as
  strings of unsigned bytes, which is how \<^verbatim>\<open>compare\<close> reads them, it is the greater one.
\<close>

theorem build_unsorted_counterexample:
  "this_sa (SuffixArray insertion_sort True [CHR 0x00, CHR 0x00]) = [0, 1] \<and>
   this_sa (SuffixArray insertion_sort False [CHR 0x00, CHR 0x00]) = [0, 1] \<and>
   \<not> drop 0 [CHR 0x00, CHR 0x00] \<le> drop 1 [CHR 0x00, CHR 0x00] \<and>
   this_sa (SuffixArray insertion_sort True [CHR 0x01, CHR 0xC8]) = [1, 0] \<and>
   \<not> drop 1 [CHR 0x01, CHR 0xC8] \<le> drop 0 [CHR 0x01, CHR 0xC8]"
proof -
  have a: "\<not> drop 0 [CHR 0x00, CHR 0x00] \<le> drop 1 [CHR 0x00, CHR 0x00]" by simp
  have b: "\<not> drop 1 [CHR 0x01, CHR 0xC8] \<le> drop 0 [CHR 0x01, CHR 0xC8]" by simp
  show ?thesis unfolding obj_nul2 obj_nul2u obj_hi2 using a b by simp
qed

subsection \<open>C2: \<^verbatim>\<open>find\<close> returns the occurrences\<close>

text \<open>
  C2, as amended. For every text \<open>T\<close> whose characters all convert to a positive
  \<^verbatim>\<open>int\<close> and every pattern \<open>P\<close> that is not lexicographically greater than the first
  \<open>|P|\<close> characters of every suffix of \<open>T\<close> (so for every pattern that occurs in \<open>T\<close>, and
  for the empty pattern when \<open>T\<close> is not empty), \<^verbatim>\<open>find(P)\<close> returns, and the set of the
  indices it returns is exactly the set of the start positions \<open>k\<close> in \<open>[0, n)\<close> with
  \<open>T[k..k+|P|) = P\<close>. What \<^verbatim>\<open>find\<close> does with a pattern greater than all of them is left
  out here (see C3).
\<close>

theorem find_returns_occurrences:
  assumes "sorts srt" and "valid_text signed_char txt"
    and "\<exists>k<length txt. \<not> take (length p) (drop k txt) < p"
  shows "\<exists>r. find_sa (SuffixArray srt signed_char txt) p = Inr r \<and> set r = occurrences txt p"
proof -
  let ?t = "SuffixArray srt signed_char txt"
  have wf: "wf_index ?t" by (rule SuffixArray_wf [OF assms(1)])
  note f = wf_index_facts [OF wf]
  have so: "sorted_suffixes (this_s ?t) (this_sa ?t)"
    using SuffixArray_sorted [OF assms(1,2)] by simp
  note spec = find_sa_spec [OF wf window_mono_sorted [OF wf so], of p]
  obtain k where k: "k < length txt" "\<not> take (length p) (drop k txt) < p"
    using assms(3) by blast
  obtain i where i: "i < this_n ?t" "this_sa ?t ! i = k"
    using k(1) f(1,4) by (metis SuffixArray_n atLeastLessThan_iff in_set_conv_nth zero_le)
  have "\<not> window ?t (length p) i < p" using k(2) i(2) unfolding window_def by simp
  then have ne: "\<not> (\<forall>i<this_n ?t. window ?t (length p) i < p)" using i(1) by blast
  let ?r = "map (\<lambda>i. this_sa ?t ! i) (filter (\<lambda>i. window ?t (length p) i = p) [0..<this_n ?t])"
  have "find_sa ?t p = Inr ?r" using spec ne by simp
  moreover have "set ?r = occurrences txt p"
    using find_sa_set [OF wf, of p] by (simp add: Collect_conj_eq Int_commute)
  ultimately show ?thesis by blast
qed

text \<open>The theorem at the text \<open>abab\<close> and the pattern \<open>ab\<close>: \<^verbatim>\<open>find\<close> returns \<open>[2, 0]\<close>.\<close>

theorem find_returns_occurrences_witness:
  "find_sa (SuffixArray insertion_sort True ''abab'') ''ab'' = Inr [2, 0] \<and>
   occurrences ''abab'' ''ab'' = {0, 2}"
proof -
  have "\<not> take (length ''ab'') (drop 0 ''abab'') < ''ab''" by simp
  then have "\<exists>k<length ''abab''. \<not> take (length ''ab'') (drop k ''abab'') < ''ab''" by force
  from find_returns_occurrences [OF insertion_sort_sorts valid_text_abab this]
  show ?thesis unfolding find_abab_ab by auto
qed

text \<open>
  C2 as stated fails in three ways. In the text \<open>a\<close> the pattern \<open>b\<close> is greater than
  every suffix: the first binary search ends at \<open>lo = n\<close> and \<^verbatim>\<open>sa[lo]\<close> is read outside
  the vector, so no set is returned. In the text of three NULs the suffix array is
  \<open>[1, 2, 0]\<close>, which is not sorted, and \<^verbatim>\<open>find\<close> returns only position 0 for the
  pattern of two NULs, which also occurs at position 1. And where plain \<^verbatim>\<open>char\<close> is
  signed, in the text of the bytes \<open>0x01\<close> and \<open>0xC8\<close> the suffix array is \<open>[1, 0]\<close>, and
  \<^verbatim>\<open>find\<close> returns nothing for the pattern \<open>0x01\<close>, which occurs at position 0.
\<close>

theorem find_wrong_counterexample:
  "find_sa (SuffixArray insertion_sort True ''a'') ''b'' = Inl OutOfBounds \<and>
   find_sa (SuffixArray insertion_sort True [CHR 0x00, CHR 0x00, CHR 0x00]) [CHR 0x00, CHR 0x00]
     = Inr [0] \<and>
   1 \<in> occurrences [CHR 0x00, CHR 0x00, CHR 0x00] [CHR 0x00, CHR 0x00] \<and>
   find_sa (SuffixArray insertion_sort True [CHR 0x01, CHR 0xC8]) [CHR 0x01] = Inr [] \<and>
   0 \<in> occurrences [CHR 0x01, CHR 0xC8] [CHR 0x01]"
proof -
  have c: "1 \<in> occurrences [CHR 0x00, CHR 0x00, CHR 0x00] [CHR 0x00, CHR 0x00]"
    unfolding occurrences_def by simp
  have d: "0 \<in> occurrences [CHR 0x01, CHR 0xC8] [CHR 0x01]"
    unfolding occurrences_def by simp
  show ?thesis using find_a_b find_nul3_nul2 find_hi2_one c d by simp
qed

subsection \<open>C3: \<^verbatim>\<open>find\<close> stays within bounds\<close>

text \<open>
  C3 does not hold of the code. When the pattern is greater than the first \<open>|P|\<close>
  characters of every suffix, and whenever the text is empty, the first binary search
  of \<^verbatim>\<open>find\<close> ends at \<open>lo = n\<close> and the test after it reads \<^verbatim>\<open>sa[n]\<close>, one past the end
  of the vector: for the text \<open>a\<close> and the pattern \<open>b\<close>, and for the empty text and any
  pattern, with every sorting function and either signedness of \<^verbatim>\<open>char\<close>.
\<close>

theorem find_reads_past_end:
  "find_sa (SuffixArray srt signed_char ''a'') ''b'' = Inl OutOfBounds \<and>
   find_sa (SuffixArray srt signed_char []) p = Inl OutOfBounds"
proof -
  have a: "find_sa (SuffixArray srt signed_char ''a'') ''b'' = Inl OutOfBounds"
    unfolding SuffixArray_single find_sa_def Let_def
    by (simp add: lower_bound_loop.simps vec_at_def str_compare_def)
  have b: "find_sa (SuffixArray srt signed_char []) p = Inl OutOfBounds"
    unfolding SuffixArray_Nil find_sa_def Let_def
    by (simp add: lower_bound_loop.simps vec_at_def)
  show ?thesis using a b by simp
qed

subsection \<open>C4: the empty text and the text of one character\<close>

text \<open>
  C4 holds of the code in three of its four parts. The constructor leaves \<open>[]\<close> for the
  empty text and \<open>[0]\<close> for a text of one character, and \<^verbatim>\<open>findLCP\<close> returns the empty
  string for a text of one character. On the empty text \<^verbatim>\<open>findLCP\<close> does not return the
  empty string: its first statement \<^verbatim>\<open>phi[sa[0]] = -1\<close> reads \<^verbatim>\<open>sa[0]\<close> of an empty
  vector.
\<close>

theorem boundary_texts:
  "this_sa (SuffixArray srt signed_char []) = [] \<and>
   findLCP (SuffixArray srt signed_char []) = Inl OutOfBounds \<and>
   this_sa (SuffixArray srt signed_char [c]) = [0] \<and>
   findLCP (SuffixArray srt signed_char [c]) = Inr []"
proof -
  have a: "findLCP (SuffixArray srt signed_char []) = Inl OutOfBounds"
    unfolding SuffixArray_Nil findLCP_def findLCP_run_def build_phi_def
    by (simp add: vec_at_def)
  have b: "findLCP (SuffixArray srt signed_char [c]) = Inr []"
    unfolding SuffixArray_single findLCP_def findLCP_run_def build_phi_def
    by (simp add: vec_at_def vec_set_def plcp_step_def)
  show ?thesis using a b by (simp add: SuffixArray_Nil SuffixArray_single)
qed

subsection \<open>C5: equal ranks are equal prefixes\<close>

text \<open>
  C5, as amended. For every text without a NUL character, whatever the signedness of
  plain \<^verbatim>\<open>char\<close>, and every doubling step \<open>k\<close> of \<^verbatim>\<open>build\<close>: after the iteration with step
  \<open>k\<close>, for all positions \<open>i\<close> and \<open>j\<close>, \<^verbatim>\<open>ra[i] == ra[j]\<close> if and only if the first \<open>2k\<close>
  characters of the suffixes \<open>i\<close> and \<open>j\<close> are the same string (each cut at the end of the
  text).
\<close>

theorem rank_classes_after_step:
  assumes "sorts srt" and "CHR 0x00 \<notin> set txt"
    and "(k, sa, ra, rb) \<in> set (doubling_steps srt signed_char txt)"
    and "build_iter srt (length txt) k (sa, ra, rb) = (sa', ra', rb')"
    and "i < length txt" and "j < length txt"
  shows "(ra' ! i = ra' ! j) = (take (2 * k) (drop i txt) = take (2 * k) (drop j txt))"
proof -
  note S = doubling_steps_shape [OF assms(1,3)]
  note I = doubling_steps_rank_eq_inv [OF assms(1,2,3)]
  from build_iter_rank_eq_inv [OF assms(1) S(1) I S(3) refl S(4,5) assms(4)]
  show ?thesis using assms(5,6) unfolding rank_eq_inv_def by blast
qed

text \<open>
  The theorem at the first doubling step of the text \<open>abab\<close>: the ranks after it are
  \<open>[1, 3, 1, 2]\<close>, equal at the positions 0 and 2, where the text reads \<open>ab\<close> twice.
\<close>

theorem rank_classes_after_step_witness:
  "build_iter insertion_sort (length ''abab'') 1 ([0, 1, 2, 3], [97, 98, 97, 98], [0, 0, 0, 0]) =
     ([0, 2, 3, 1], [1, 3, 1, 2], [1, 3, 1, 2]) \<and>
   (([1, 3, 1, 2] :: int list) ! 0 = [1, 3, 1, 2] ! 2) =
     (take (2 * 1) (drop 0 ''abab'') = take (2 * 1) (drop 2 ''abab''))"
proof -
  have mem: "(1, [0, 1, 2, 3], [97, 98, 97, 98], [0, 0, 0, 0])
      \<in> set (doubling_steps insertion_sort True ''abab'')"
    unfolding steps_abab by simp
  have len: "length ''abab'' = 4" by simp
  have it: "build_iter insertion_sort (length ''abab'') 1
      ([0, 1, 2, 3], [97, 98, 97, 98], [0, 0, 0, 0]) = ([0, 2, 3, 1], [1, 3, 1, 2], [1, 3, 1, 2])"
    unfolding len by (rule iter_abab_1)
  have nul: "CHR 0x00 \<notin> set ''abab''" by simp
  have "(0::nat) < length ''abab''" "(2::nat) < length ''abab''" by simp_all
  from rank_classes_after_step [OF insertion_sort_sorts nul mem it this]
  show ?thesis using it by blast
qed

text \<open>
  C5 as stated fails on the text of two NULs: after its only iteration (step 1) both
  positions have rank 1, and the first two characters of the suffix 0 are two NULs,
  those of the suffix 1 one NUL.
\<close>

theorem rank_classes_counterexample:
  "doubling_steps insertion_sort True [CHR 0x00, CHR 0x00] = [(1, [0, 1], [0, 0], [0, 0])] \<and>
   build_iter insertion_sort 2 1 ([0, 1], [0, 0], [0, 0]) = ([0, 1], [1, 1], [1, 1]) \<and>
   take (2 * 1) (drop 0 [CHR 0x00, CHR 0x00]) \<noteq> take (2 * 1) (drop 1 [CHR 0x00, CHR 0x00])"
  using steps_nul2 iter_nul2_1 by simp

subsection \<open>C8: the ranks and the rank of ``past the end''\<close>

text \<open>
  C8, as amended. After the iteration of every doubling step \<open>k\<close> the ranks in \<^verbatim>\<open>ra\<close> are
  normalized: the suffix first in the sorted array has rank 1 and each next one has
  the rank of its predecessor, plus one exactly where \<^verbatim>\<open>cmp\<close> tells the two apart; so
  they are all greater than the 0 that \<^verbatim>\<open>cmp\<close> uses for positions past the end, and so
  are the ranks that every doubling step after the first starts from. The first
  doubling step starts from the character codes, which are not normalized, and which
  are all greater than 0 when every character of the text converts to a positive
  \<^verbatim>\<open>int\<close>.
\<close>

theorem ranks_after_step_normalized:
  assumes "sorts srt"
    and "(k, sa, ra, rb) \<in> set (doubling_steps srt signed_char txt)"
    and "build_iter srt (length txt) k (sa, ra, rb) = (sa', ra', rb')"
  shows "ranks_normalized (length txt) k ra sa' ra' \<and> (\<forall>i<length txt. 0 < ra' ! i) \<and>
         (valid_text signed_char txt \<or> 1 < k \<longrightarrow> (\<forall>i<length txt. 0 < ra ! i))"
proof -
  note S = doubling_steps_shape [OF assms(1,2)]
  have n0: "0 < length txt" using S(5) by (cases "txt") auto
  note P = build_iter_props [OF assms(1) S(1,2,3) n0 assms(3)]
  have a: "ranks_normalized (length txt) k ra sa' ra'"
    unfolding ranks_normalized_def using P(5) n0 by simp
  have b: "\<forall>i<length txt. 0 < ra' ! i"
    using build_iter_rank_less(2) [OF assms(1) S(1,2,3) n0 assms(3)] by blast
  have c: "\<forall>i<length txt. 0 < ra ! i" if "valid_text signed_char txt \<or> 1 < k"
  proof (cases "valid_text signed_char txt")
    case True
    then show ?thesis using doubling_steps_rank_inv [OF assms(1) True assms(2)]
      unfolding rank_inv_def by blast
  next
    case False
    then show ?thesis using that S(6) by auto
  qed
  show ?thesis using a b c by blast
qed

text \<open>The theorem at the first doubling step of the text \<open>abab\<close>.\<close>

theorem ranks_after_step_normalized_witness:
  "build_iter insertion_sort (length ''abab'') 1 ([0, 1, 2, 3], [97, 98, 97, 98], [0, 0, 0, 0]) =
     ([0, 2, 3, 1], [1, 3, 1, 2], [1, 3, 1, 2]) \<and>
   ranks_normalized (length ''abab'') 1 [97, 98, 97, 98] [0, 2, 3, 1] [1, 3, 1, 2]"
proof -
  have mem: "(1, [0, 1, 2, 3], [97, 98, 97, 98], [0, 0, 0, 0])
      \<in> set (doubling_steps insertion_sort True ''abab'')"
    unfolding steps_abab by simp
  have len: "length ''abab'' = 4" by simp
  have it: "build_iter insertion_sort (length ''abab'') 1
      ([0, 1, 2, 3], [97, 98, 97, 98], [0, 0, 0, 0]) = ([0, 2, 3, 1], [1, 3, 1, 2], [1, 3, 1, 2])"
    unfolding len by (rule iter_abab_1)
  from ranks_after_step_normalized [OF insertion_sort_sorts mem it]
  show ?thesis using it by blast
qed

text \<open>
  C8 as stated fails at the first doubling step, where \<^verbatim>\<open>ra\<close> holds the character codes
  and not normalized ranks: in the text \<open>ab\<close> the ranks that \<^verbatim>\<open>cmp\<close> reads during step 1
  are 97 and 98, and in the text of two NULs they are 0 and 0, not greater than the 0
  of a position past the end.
\<close>

theorem ranks_first_step_counterexample:
  "doubling_steps insertion_sort True ''ab'' = [(1, [0, 1], [97, 98], [0, 0])] \<and>
   doubling_steps insertion_sort True [CHR 0x00, CHR 0x00] = [(1, [0, 1], [0, 0], [0, 0])]"
  using steps_ab steps_nul2 by simp

subsection \<open>C9: the empty pattern\<close>

text \<open>
  C9. For every text of length \<open>n > 0\<close> and every sorting function that meets the
  requirement of \<^verbatim>\<open>std::sort\<close>, \<^verbatim>\<open>find\<close> applied to the empty pattern returns the whole
  suffix array: \<open>n\<close> indices that are a permutation of \<open>[0, n)\<close>, in suffix-array order.
  This needs no condition on the characters of the text.
\<close>

theorem find_empty_pattern:
  assumes "sorts srt" and "txt \<noteq> []"
  shows "find_sa (SuffixArray srt signed_char txt) [] = Inr (this_sa (SuffixArray srt signed_char txt)) \<and>
         mset (this_sa (SuffixArray srt signed_char txt)) = mset [0..<length txt]"
proof -
  let ?t = "SuffixArray srt signed_char txt"
  have wf: "wf_index ?t" by (rule SuffixArray_wf [OF assms(1)])
  note f = wf_index_facts [OF wf]
  note spec = find_sa_spec [OF wf window_mono_empty]
  have w: "window ?t 0 i = []" for i unfolding window_def by simp
  have n0: "0 < this_n ?t" using assms(2) by simp
  have "map (\<lambda>i. this_sa ?t ! i) [0..<this_n ?t] = this_sa ?t"
    using f(1) map_nth [of "this_sa ?t"] by simp
  then have "find_sa ?t [] = Inr (this_sa ?t)" using spec n0 w by auto
  then show ?thesis using SuffixArray_perm [OF assms(1), of signed_char "txt"] by simp
qed

text \<open>The theorem at the text \<open>abab\<close>.\<close>

theorem find_empty_pattern_witness:
  "find_sa (SuffixArray insertion_sort True ''abab'') [] = Inr [2, 0, 3, 1] \<and>
   mset [2, 0, 3, 1] = mset [0..<length ''abab'']"
proof -
  have "''abab'' \<noteq> []" by simp
  from find_empty_pattern [OF insertion_sort_sorts this, of True]
  show ?thesis unfolding obj_abab by simp
qed

subsection \<open>C6: the values of \<^verbatim>\<open>plcp\<close> fall by at most one\<close>

text \<open>
  C6, as amended. For every non-empty text whose characters all convert to a positive
  \<^verbatim>\<open>int\<close>, \<^verbatim>\<open>findLCP\<close> fills \<^verbatim>\<open>phi\<close> and \<^verbatim>\<open>plcp\<close> without leaving the text, and

  \<^item> \<^verbatim>\<open>phi\<close> maps the suffix at every rank \<open>r > 0\<close> to the suffix at rank \<open>r - 1\<close> and the
    suffix at rank 0 to \<open>-1\<close>;
  \<^item> \<^verbatim>\<open>plcp[sa[r]]\<close> is the length of the longest common prefix of the suffixes at the
    ranks \<open>r\<close> and \<open>r - 1\<close>, and \<^verbatim>\<open>plcp[sa[0]]\<close> is 0;
  \<^item> \<open>plcp[k] \<ge> plcp[k-1] - 1\<close> for all \<open>0 < k < n\<close>;
  \<^item> when the loop comes to a position \<open>i\<close>, the counter \<^verbatim>\<open>L\<close>, carried on as
    \<open>max(L-1, 0)\<close>, is at most the value \<^verbatim>\<open>plcp[i]\<close> due there, so the comparison never has
    to start again from zero.
\<close>

theorem plcp_monotone:
  assumes "sorts srt" and "valid_text signed_char txt" and "txt \<noteq> []"
  shows "\<exists>phi plcp L maxL lcp.
           build_phi (SuffixArray srt signed_char txt) = Inr phi \<and>
           is_phi (this_sa (SuffixArray srt signed_char txt)) phi \<and>
           findLCP_run (SuffixArray srt signed_char txt) = Inr (plcp, L, maxL, lcp) \<and>
           (\<forall>k<length txt. plcp ! k = plcp_of txt phi k) \<and>
           plcp ! (this_sa (SuffixArray srt signed_char txt) ! 0) = 0 \<and>
           (\<forall>r. 0 < r \<and> r < length txt \<longrightarrow>
              plcp ! (this_sa (SuffixArray srt signed_char txt) ! r) =
                lcpl (drop (this_sa (SuffixArray srt signed_char txt) ! r) txt)
                     (drop (this_sa (SuffixArray srt signed_char txt) ! (r - 1)) txt)) \<and>
           (\<forall>k. 0 < k \<and> k < length txt \<longrightarrow> plcp ! (k - 1) - 1 \<le> plcp ! k) \<and>
           (\<forall>i<length txt. \<exists>plcp' L' maxL' lcp'.
              plcp_loop txt phi [0..<i] (replicate (length txt) 0, 0, 0, []) =
                Inr (plcp', L', maxL', lcp') \<and> L' \<le> plcp ! i)"
proof -
  let ?t = "SuffixArray srt signed_char txt"
  let ?sa = "this_sa ?t"
  have wf: "wf_index ?t" by (rule SuffixArray_wf [OF assms(1)])
  note f = wf_index_facts [OF wf]
  have so: "sorted_suffixes (this_s ?t) (this_sa ?t)"
    using SuffixArray_sorted [OF assms(1,2)] by simp
  have nul: "CHR 0x00 \<notin> set (this_s ?t)" using valid_text_no_nul [OF assms(2)] by simp
  have n0: "0 < length txt" using assms(3) by (cases "txt") auto
  have len: "length ?sa = length txt" using f(1) by simp
  have rng: "?sa ! r < length txt" if "r < length txt" for r
    using f(3) [of r] that by simp
  obtain phi st where r: "build_phi ?t = Inr phi" "is_phi ?sa phi"
      "findLCP_run ?t = Inr st" "plcp_inv txt phi (length txt) st"
    using findLCP_run_inv [OF assms] by blast
  obtain plcp L maxL lcp where s: "st = (plcp, L, maxL, lcp)" by (cases st) auto
  have P: "\<And>k. k < length txt \<Longrightarrow> plcp ! k = plcp_of txt phi k"
    using r(4) unfolding plcp_inv_def s by simp
  have ph0: "phi ! (?sa ! 0) = - 1"
    and phr: "\<And>r. 0 < r \<Longrightarrow> r < length txt \<Longrightarrow> phi ! (?sa ! r) = int (?sa ! (r - 1))"
    using r(2) len unfolding is_phi_def by simp_all
  have first: "plcp ! (?sa ! 0) = 0"
    using P [OF rng [OF n0]] ph0 unfolding plcp_of_def by simp
  have pred: "plcp ! (?sa ! r) = lcpl (drop (?sa ! r) txt) (drop (?sa ! (r - 1)) txt)"
    if r0: "0 < r" and rn: "r < length txt" for r
  proof -
    have "phi ! (?sa ! r) \<noteq> - 1" using phr [OF r0 rn] by simp
    then show ?thesis using P [OF rng [OF rn]] phr [OF r0 rn] unfolding plcp_of_def by simp
  qed
  have mono: "plcp ! (k - 1) - 1 \<le> plcp ! k" if k0: "0 < k" and kn: "k < length txt" for k
  proof -
    obtain k' where k': "k = Suc k'" using k0 by (cases k) auto
    have "Suc k' < this_n ?t" using kn k' by simp
    from kasai_step [OF wf so r(2) this] show ?thesis
      using P [of k] P [of k'] kn k' by simp
  qed
  have counter: "\<exists>plcp' L' maxL' lcp'.
      plcp_loop txt phi [0..<i] (replicate (length txt) 0, 0, 0, []) =
        Inr (plcp', L', maxL', lcp') \<and> L' \<le> plcp ! i" if i: "i < length txt" for i
  proof -
    have "i \<le> this_n ?t" using i by simp
    from plcp_loop_inv [OF wf so r(2) nul this]
    obtain st' where st': "plcp_loop txt phi [0..<i] (replicate (length txt) 0, 0, 0, []) = Inr st'"
        "plcp_inv txt phi i st'" by auto
    obtain plcp' L' maxL' lcp' where s': "st' = (plcp', L', maxL', lcp')" by (cases st') auto
    have "L' \<le> plcp_of txt phi i" using st'(2) i unfolding plcp_inv_def s' by simp
    then have "L' \<le> plcp ! i" using P [OF i] by simp
    then show ?thesis using st'(1) unfolding s' by blast
  qed
  show ?thesis
  proof (rule exI [of _ phi], rule exI [of _ plcp], rule exI [of _ L], rule exI [of _ maxL],
      rule exI [of _ lcp], intro conjI)
    show "build_phi ?t = Inr phi" by (rule r(1))
    show "is_phi ?sa phi" by (rule r(2))
    show "findLCP_run ?t = Inr (plcp, L, maxL, lcp)" using r(3) unfolding s .
    show "\<forall>k<length txt. plcp ! k = plcp_of txt phi k" using P by blast
    show "plcp ! (?sa ! 0) = 0" by (rule first)
    show "\<forall>r. 0 < r \<and> r < length txt \<longrightarrow>
        plcp ! (?sa ! r) = lcpl (drop (?sa ! r) txt) (drop (?sa ! (r - 1)) txt)"
      using pred by blast
    show "\<forall>k. 0 < k \<and> k < length txt \<longrightarrow> plcp ! (k - 1) - 1 \<le> plcp ! k"
      using mono by blast
    show "\<forall>i<length txt. \<exists>plcp' L' maxL' lcp'.
        plcp_loop txt phi [0..<i] (replicate (length txt) 0, 0, 0, []) =
          Inr (plcp', L', maxL', lcp') \<and> L' \<le> plcp ! i"
      using counter by blast
  qed
qed

text \<open>
  The theorem at the text \<open>abab\<close>, whose suffix array is \<open>[2, 0, 3, 1]\<close>: \<^verbatim>\<open>phi\<close> is
  \<open>[2, 3, -1, 0]\<close> and \<^verbatim>\<open>plcp\<close> ends as \<open>[2, 1, 0, 0]\<close>; the suffix 0, at rank 1, has two
  characters in common with the suffix 2 at rank 0; and the loop comes to position 1
  with \<open>L = 1\<close>, which is \<^verbatim>\<open>plcp[1]\<close>.
\<close>

theorem plcp_monotone_witness:
  "build_phi (SuffixArray insertion_sort True ''abab'') = Inr [2, 3, - 1, 0] \<and>
   is_phi [2, 0, 3, 1] [2, 3, - 1, 0] \<and>
   findLCP_run (SuffixArray insertion_sort True ''abab'') = Inr ([2, 1, 0, 0], 0, 2, ''ab'') \<and>
   ([2, 1, 0, 0] :: nat list) ! ([2, 0, 3, 1] ! 1) =
     lcpl (drop ([2, 0, 3, 1] ! 1) ''abab'') (drop ([2, 0, 3, 1] ! (1 - 1)) ''abab'') \<and>
   ([2, 1, 0, 0] :: nat list) ! (1 - 1) - 1 \<le> [2, 1, 0, 0] ! 1 \<and>
   plcp_loop ''abab'' [2, 3, - 1, 0] [0..<1] (replicate 4 0, 0, 0, []) =
     Inr ([2, 0, 0, 0], 1, 2, ''ab'') \<and>
   (1::nat) \<le> [2, 1, 0, 0] ! 1"
proof -
  let ?t = "SuffixArray insertion_sort True ''abab''"
  have ne: "''abab'' \<noteq> []" by simp
  have sa: "this_sa ?t = [2, 0, 3, 1]" unfolding obj_abab by simp
  from plcp_monotone [OF insertion_sort_sorts valid_text_abab ne]
  obtain phi plcp L maxL lcp where r: "build_phi ?t = Inr phi" "is_phi (this_sa ?t) phi"
      "findLCP_run ?t = Inr (plcp, L, maxL, lcp)"
    by blast
  have phi: "phi = [2, 3, - 1, 0]" using r(1) unfolding phi_abab by simp
  have a: "is_phi [2, 0, 3, 1] [2, 3, - 1, 0]" using r(2) unfolding sa phi .
  have b: "([2, 1, 0, 0] :: nat list) ! ([2, 0, 3, 1] ! 1) =
     lcpl (drop ([2, 0, 3, 1] ! 1) ''abab'') (drop ([2, 0, 3, 1] ! (1 - 1)) ''abab'')"
    by simp
  show ?thesis using phi_abab a run_abab b plcp_abab_1 by simp
qed

text \<open>
  C6 as stated fails where plain \<^verbatim>\<open>char\<close> is signed, on the text of three bytes
  \<open>0xC8\<close>: their codes are negative, the suffix array comes out as \<open>[1, 0, 2]\<close>, and
  \<^verbatim>\<open>findLCP\<close> ends with \<^verbatim>\<open>plcp\<close> \<open>= [2, 0, 1]\<close>, where \<open>plcp[1] = 0\<close> is less than
  \<open>plcp[0] - 1 = 1\<close>. And on the text of two NULs \<^verbatim>\<open>findLCP\<close> computes no values at all:
  the comparison loop leaves the text at the first position.
\<close>

theorem plcp_monotone_counterexample:
  "findLCP_run (SuffixArray insertion_sort True [CHR 0xC8, CHR 0xC8, CHR 0xC8]) =
     Inr ([2, 0, 1], 0, 2, [CHR 0xC8, CHR 0xC8]) \<and>
   \<not> ([2, 0, 1] :: nat list) ! (1 - 1) - 1 \<le> [2, 0, 1] ! 1 \<and>
   findLCP_run (SuffixArray insertion_sort True [CHR 0x00, CHR 0x00]) = Inl OutOfBounds"
  using run_hi3 run_nul2 by simp

subsection \<open>C7: \<^verbatim>\<open>findLCP\<close> returns a longest repeated substring\<close>

text \<open>
  C7, as amended. For every non-empty text \<open>T\<close> whose characters all convert to a
  positive \<^verbatim>\<open>int\<close>, \<^verbatim>\<open>findLCP\<close> returns a string \<open>r\<close>; no two distinct suffixes of \<open>T\<close> have a
  common prefix longer than \<open>r\<close>; and either \<open>r\<close> is empty, or \<open>r\<close> is the longest common
  prefix of two distinct suffixes of \<open>T\<close> (so it occurs in \<open>T\<close>, twice). The empty text is
  left out here (see C4).
\<close>

theorem findLCP_longest_repeat:
  assumes "sorts srt" and "valid_text signed_char txt" and "txt \<noteq> []"
  shows "\<exists>r. findLCP (SuffixArray srt signed_char txt) = Inr r \<and>
           (\<forall>i j. i < j \<and> j < length txt \<longrightarrow> lcpl (drop i txt) (drop j txt) \<le> length r) \<and>
           (r = [] \<or>
            (\<exists>i j. i < length txt \<and> j < length txt \<and> i \<noteq> j \<and>
               lcpl (drop i txt) (drop j txt) = length r \<and> r = take (length r) (drop i txt)))"
proof -
  let ?t = "SuffixArray srt signed_char txt"
  have wf: "wf_index ?t" by (rule SuffixArray_wf [OF assms(1)])
  have so: "sorted_suffixes (this_s ?t) (this_sa ?t)"
    using SuffixArray_sorted [OF assms(1,2)] by simp
  have nul: "CHR 0x00 \<notin> set (this_s ?t)" using valid_text_no_nul [OF assms(2)] by simp
  obtain phi st where r: "build_phi ?t = Inr phi" "is_phi (this_sa ?t) phi"
      "findLCP_run ?t = Inr st" "plcp_inv txt phi (length txt) st"
    using findLCP_run_inv [OF assms] by blast
  obtain plcp L maxL lcp where s: "st = (plcp, L, maxL, lcp)" by (cases st) auto
  have I: "\<And>i. i < length txt \<Longrightarrow> plcp_of txt phi i \<le> maxL" "length lcp = maxL"
      "maxL = 0 \<or> (\<exists>i<length txt. plcp_of txt phi i = maxL \<and> lcp = take maxL (drop i txt))"
    using r(4) unfolding plcp_inv_def s by auto
  have res: "findLCP ?t = Inr lcp" unfolding findLCP_def r(3) s by simp
  have ub: "lcpl (drop i txt) (drop j txt) \<le> length lcp" if "i < j" "j < length txt" for i j
  proof -
    have "lcpl (drop i txt) (drop j txt) \<le> max (plcp_of txt phi i) (plcp_of txt phi j)"
      using lcpl_pair_le_plcp [OF wf so r(2), of i j] that by simp
    then show ?thesis using I(1) [of i] I(1) [of j] I(2) that by simp
  qed
  have ach: "lcp = [] \<or>
            (\<exists>i j. i < length txt \<and> j < length txt \<and> i \<noteq> j \<and>
               lcpl (drop i txt) (drop j txt) = length lcp \<and> lcp = take (length lcp) (drop i txt))"
  proof (cases "maxL = 0")
    case True
    then show ?thesis using I(2) by simp
  next
    case False
    then obtain i where i: "i < length txt" "plcp_of txt phi i = maxL" "lcp = take maxL (drop i txt)"
      using I(3) by blast
    have ne: "phi ! i \<noteq> - 1" using i(2) False unfolding plcp_of_def by (auto split: if_splits)
    have i': "i < this_n ?t" using i(1) by simp
    have z: "0 \<le> plcp_of (this_s ?t) phi i" by simp
    note e = lcp_extend_at(3,4,5) [OF wf r(2) nul i' ne z]
    define j where "j = nat (phi ! i)"
    have "j + maxL \<le> length txt" using e(1) i(2) unfolding j_def by simp
    then have j1: "j < length txt" using False by simp
    have j2: "i \<noteq> j" using e(2,3) unfolding j_def by simp
    have j3: "lcpl (drop i txt) (drop j txt) = length lcp"
      using i(2) ne I(2) unfolding j_def plcp_of_def by simp
    have "lcp = take (length lcp) (drop i txt)" using i(3) I(2) by simp
    then have "i < length txt \<and> j < length txt \<and> i \<noteq> j \<and>
               lcpl (drop i txt) (drop j txt) = length lcp \<and> lcp = take (length lcp) (drop i txt)"
      using i(1) j1 j2 j3 by simp
    then show ?thesis by blast
  qed
  show ?thesis
  proof (intro exI [of _ lcp] conjI)
    show "findLCP ?t = Inr lcp" by (rule res)
    show "\<forall>i j. i < j \<and> j < length txt \<longrightarrow> lcpl (drop i txt) (drop j txt) \<le> length lcp"
      using ub by blast
    show "lcp = [] \<or>
            (\<exists>i j. i < length txt \<and> j < length txt \<and> i \<noteq> j \<and>
               lcpl (drop i txt) (drop j txt) = length lcp \<and> lcp = take (length lcp) (drop i txt))"
      by (rule ach)
  qed
qed

text \<open>The theorem at the text \<open>abab\<close>, where \<^verbatim>\<open>findLCP\<close> returns \<open>ab\<close>.\<close>

theorem findLCP_longest_repeat_witness:
  "findLCP (SuffixArray insertion_sort True ''abab'') = Inr ''ab'' \<and>
   lcpl (drop 1 ''abab'') (drop 3 ''abab'') \<le> length ''ab''"
proof -
  have "''abab'' \<noteq> []" by simp
  from findLCP_longest_repeat [OF insertion_sort_sorts valid_text_abab this]
  show ?thesis unfolding lcp_abab by simp
qed

text \<open>
  C7 as stated fails on a text with NUL characters and on the empty text, where
  \<^verbatim>\<open>findLCP\<close> returns no string. In the text of two NULs the comparison loop takes the
  terminating NUL for one more equal character and reads \<^verbatim>\<open>s[3]\<close>, beyond it; on the
  empty text the first statement reads \<^verbatim>\<open>sa[0]\<close>. Where plain \<^verbatim>\<open>char\<close> is signed it fails
  also with a string returned: for the text of the six bytes \<open>C8 01 C8 02 C8 02\<close>, which
  has no NUL, \<^verbatim>\<open>findLCP\<close> returns the three bytes \<open>02 C8 02\<close>, which occur in the text
  once, at position 3, while no two distinct suffixes have more than two characters
  in common.
\<close>

theorem findLCP_counterexample:
  "findLCP (SuffixArray insertion_sort True [CHR 0x00, CHR 0x00]) = Inl OutOfBounds \<and>
   findLCP (SuffixArray insertion_sort True []) = Inl OutOfBounds \<and>
   findLCP (SuffixArray insertion_sort True
       [CHR 0xC8, CHR 0x01, CHR 0xC8, CHR 0x02, CHR 0xC8, CHR 0x02]) =
     Inr [CHR 0x02, CHR 0xC8, CHR 0x02] \<and>
   occurrences [CHR 0xC8, CHR 0x01, CHR 0xC8, CHR 0x02, CHR 0xC8, CHR 0x02]
     [CHR 0x02, CHR 0xC8, CHR 0x02] = {3} \<and>
   list_all (\<lambda>i. list_all (\<lambda>j. i = j \<or>
       lcpl (drop i [CHR 0xC8, CHR 0x01, CHR 0xC8, CHR 0x02, CHR 0xC8, CHR 0x02])
            (drop j [CHR 0xC8, CHR 0x01, CHR 0xC8, CHR 0x02, CHR 0xC8, CHR 0x02]) < 3)
     [0..<6]) [0..<6]"
proof -
  have e: "findLCP (SuffixArray insertion_sort True []) = Inl OutOfBounds"
    by (simp add: SuffixArray_Nil findLCP_def findLCP_run_def build_phi_def vec_at_def)
  have o: "occurrences [CHR 0xC8, CHR 0x01, CHR 0xC8, CHR 0x02, CHR 0xC8, CHR 0x02]
     [CHR 0x02, CHR 0xC8, CHR 0x02] = {3}"
    unfolding occurrences_code by code_simp
  show ?thesis using lcp_nul2 e lcp_hi6 o pairs_hi6 by simp
qed

subsection \<open>C10: the comparison loop of \<^verbatim>\<open>findLCP\<close> stays in the text\<close>

text \<open>
  C10 does not hold of the code where plain \<^verbatim>\<open>char\<close> is signed. The text of four bytes
  \<open>0xC8\<close> has no NUL. \<^verbatim>\<open>ra[i] = s[i]\<close> makes their codes negative, below the 0 of a
  position past the end, so the suffix array comes out as \<open>[2, 0, 1, 3]\<close> and \<^verbatim>\<open>phi\<close> as
  \<open>[2, 0, -1, 1]\<close>. The loop of \<^verbatim>\<open>findLCP\<close> reaches \<open>i = 3\<close>, where \<^verbatim>\<open>phi[3]\<close> is 1 and not
  \<open>-1\<close>, with \<open>L = 2\<close> (position 2 has no predecessor and leaves \<^verbatim>\<open>L\<close> as it is), and the
  first comparison there reads \<^verbatim>\<open>s[5]\<close>, beyond the terminating NUL of a text of length
  4: \<^verbatim>\<open>findLCP\<close> returns no string. The same program with an unsigned \<^verbatim>\<open>char\<close> builds the
  suffix array \<open>[3, 2, 1, 0]\<close> for this text and returns three bytes \<open>0xC8\<close>.
\<close>

theorem lcp_loop_reads_past_end:
  "CHR 0x00 \<notin> set [CHR 0xC8, CHR 0xC8, CHR 0xC8, CHR 0xC8] \<and>
   this_sa (SuffixArray insertion_sort True [CHR 0xC8, CHR 0xC8, CHR 0xC8, CHR 0xC8]) =
     [2, 0, 1, 3] \<and>
   build_phi (SuffixArray insertion_sort True [CHR 0xC8, CHR 0xC8, CHR 0xC8, CHR 0xC8]) =
     Inr [2, 0, - 1, 1] \<and>
   plcp_loop [CHR 0xC8, CHR 0xC8, CHR 0xC8, CHR 0xC8] [2, 0, - 1, 1] [0..<3]
     (replicate 4 0, 0, 0, []) = Inr ([2, 3, 0, 0], 2, 3, [CHR 0xC8, CHR 0xC8, CHR 0xC8]) \<and>
   lcp_extend [CHR 0xC8, CHR 0xC8, CHR 0xC8, CHR 0xC8] 3 1 2 = Inl OutOfBounds \<and>
   findLCP (SuffixArray insertion_sort True [CHR 0xC8, CHR 0xC8, CHR 0xC8, CHR 0xC8]) =
     Inl OutOfBounds \<and>
   this_sa (SuffixArray insertion_sort False [CHR 0xC8, CHR 0xC8, CHR 0xC8, CHR 0xC8]) =
     [3, 2, 1, 0] \<and>
   findLCP (SuffixArray insertion_sort False [CHR 0xC8, CHR 0xC8, CHR 0xC8, CHR 0xC8]) =
     Inr [CHR 0xC8, CHR 0xC8, CHR 0xC8]"
proof -
  have a: "this_sa (SuffixArray insertion_sort True [CHR 0xC8, CHR 0xC8, CHR 0xC8, CHR 0xC8]) =
     [2, 0, 1, 3]" unfolding obj_hi4 by simp
  have b: "this_sa (SuffixArray insertion_sort False [CHR 0xC8, CHR 0xC8, CHR 0xC8, CHR 0xC8]) =
     [3, 2, 1, 0]" unfolding obj_hi4u by simp
  show ?thesis using a b phi_hi4 plcp_hi4_3 extend_hi4_3 lcp_hi4 lcp_hi4u by simp
qed

section \<open>Further properties\<close>

subsection \<open>The results do not depend on the sorting function\<close>

text \<open>
  For a text whose characters all convert to a positive \<^verbatim>\<open>int\<close>, the suffix array, the
  result of \<^verbatim>\<open>find\<close> for every pattern and the result of \<^verbatim>\<open>findLCP\<close> are the same for
  every sorting function that meets the requirement of \<^verbatim>\<open>std::sort\<close> (which is not
  stable and leaves the order of equal elements open) and for either signedness of
  plain \<^verbatim>\<open>char\<close>.
\<close>

theorem index_deterministic:
  assumes "sorts srt" and "sorts srt'"
    and "valid_text signed_char txt" and "valid_text signed_char' txt"
  shows "this_sa (SuffixArray srt signed_char txt) = this_sa (SuffixArray srt' signed_char' txt) \<and>
         find_sa (SuffixArray srt signed_char txt) p = find_sa (SuffixArray srt' signed_char' txt) p \<and>
         findLCP (SuffixArray srt signed_char txt) = findLCP (SuffixArray srt' signed_char' txt)"
  using SuffixArray_any_sorter [OF assms] by simp

text \<open>The theorem at the text \<open>abab\<close>, with signed and with unsigned \<^verbatim>\<open>char\<close>.\<close>

theorem index_deterministic_witness:
  "this_sa (SuffixArray insertion_sort False ''abab'') = [2, 0, 3, 1] \<and>
   find_sa (SuffixArray insertion_sort False ''abab'') ''ab'' = Inr [2, 0] \<and>
   findLCP (SuffixArray insertion_sort False ''abab'') = Inr ''ab''"
proof -
  have u: "valid_text False ''abab''" unfolding valid_text_unsigned by simp
  have sa: "this_sa (SuffixArray insertion_sort True ''abab'') = [2, 0, 3, 1]"
    unfolding obj_abab by simp
  from index_deterministic [OF insertion_sort_sorts insertion_sort_sorts u valid_text_abab,
      of "''ab''"]
  show ?thesis unfolding sa find_abab_ab lcp_abab .
qed

subsection \<open>What \<^verbatim>\<open>find\<close> returns, for every pattern\<close>

text \<open>
  For a text whose characters all convert to a positive \<^verbatim>\<open>int\<close>, \<^verbatim>\<open>find\<close> does one of two
  things. When the pattern is greater than the first \<open>|P|\<close> characters of every suffix
  (as is every pattern when the text is empty), it reads \<^verbatim>\<open>sa[n]\<close>. Otherwise it returns
  the start positions of the occurrences of the pattern, each once, in the order in
  which the suffix array lists them.
\<close>

theorem find_characterisation:
  assumes "sorts srt" and "valid_text signed_char txt"
  shows "find_sa (SuffixArray srt signed_char txt) p =
     (if \<forall>k<length txt. take (length p) (drop k txt) < p then Inl OutOfBounds
      else Inr (filter (\<lambda>k. take (length p) (drop k txt) = p)
                  (this_sa (SuffixArray srt signed_char txt))))"
  by (rule find_sa_filter [OF assms])

text \<open>The theorem at the text \<open>abab\<close> and the patterns \<open>ab\<close> and \<open>c\<close>.\<close>

theorem find_characterisation_witness:
  "find_sa (SuffixArray insertion_sort True ''abab'') ''ab'' = Inr [2, 0] \<and>
   find_sa (SuffixArray insertion_sort True ''abab'') ''c'' = Inl OutOfBounds"
proof -
  note f = find_characterisation [OF insertion_sort_sorts valid_text_abab]
  have a: "\<not> (\<forall>k<length ''abab''. take (length ''ab'') (drop k ''abab'') < ''ab'')"
  proof
    assume "\<forall>k<length ''abab''. take (length ''ab'') (drop k ''abab'') < ''ab''"
    moreover have "(0::nat) < length ''abab''" by simp
    ultimately have "take (length ''ab'') (drop 0 ''abab'') < ''ab''" by blast
    then show False by simp
  qed
  have b: "\<forall>k<length ''abab''. take (length ''c'') (drop k ''abab'') < ''c''"
    by (simp add: less_Suc_eq)
  have "find_sa (SuffixArray insertion_sort True ''abab'') ''ab'' = Inr [2, 0]"
    unfolding f [of "''ab''"] using a unfolding obj_abab by simp
  moreover have "find_sa (SuffixArray insertion_sort True ''abab'') ''c'' = Inl OutOfBounds"
    unfolding f [of "''c''"] using b by simp
  ultimately show ?thesis by simp
qed

subsection \<open>The scenarios of the specification\<close>

text \<open>
  The text \<open>GATAGACA\<close>: with every sorting function that meets the requirement of
  \<^verbatim>\<open>std::sort\<close> and either signedness of plain \<^verbatim>\<open>char\<close>, the suffix array is
  \<open>[7, 5, 3, 1, 6, 4, 0, 2]\<close>, \<^verbatim>\<open>find\<close> returns the positions 4 and 0, in this order, for
  the pattern \<open>GA\<close>, and \<^verbatim>\<open>findLCP\<close> returns \<open>GA\<close>.
\<close>

theorem scenario_GATAGACA:
  assumes "sorts srt"
  shows "this_sa (SuffixArray srt signed_char ''GATAGACA'') = [7, 5, 3, 1, 6, 4, 0, 2] \<and>
         find_sa (SuffixArray srt signed_char ''GATAGACA'') ''GA'' = Inr [4, 0] \<and>
         findLCP (SuffixArray srt signed_char ''GATAGACA'') = Inr ''GA''"
proof -
  have v: "valid_text sg ''GATAGACA''" for sg by (rule valid_text_ascii) simp
  note e = SuffixArray_any_sorter [OF assms insertion_sort_sorts v [of signed_char] v [of True]]
  show ?thesis unfolding e find_GATAGACA_GA lcp_GATAGACA unfolding obj_GATAGACA by simp
qed

theorem scenario_GATAGACA_witness:
  "this_sa (SuffixArray insertion_sort False ''GATAGACA'') = [7, 5, 3, 1, 6, 4, 0, 2] \<and>
   find_sa (SuffixArray insertion_sort False ''GATAGACA'') ''GA'' = Inr [4, 0] \<and>
   findLCP (SuffixArray insertion_sort False ''GATAGACA'') = Inr ''GA''"
  by (rule scenario_GATAGACA [OF insertion_sort_sorts])

text \<open>
  The text \<open>AAAA\<close>: the suffix array is \<open>[3, 2, 1, 0]\<close> and \<^verbatim>\<open>findLCP\<close> returns \<open>AAA\<close>.
\<close>

theorem scenario_AAAA:
  assumes "sorts srt"
  shows "this_sa (SuffixArray srt signed_char ''AAAA'') = [3, 2, 1, 0] \<and>
         findLCP (SuffixArray srt signed_char ''AAAA'') = Inr ''AAA''"
proof -
  have v: "valid_text sg ''AAAA''" for sg by (rule valid_text_ascii) simp
  note e = SuffixArray_any_sorter(1,3) [OF assms insertion_sort_sorts v [of signed_char] v [of True]]
  show ?thesis unfolding e lcp_AAAA unfolding obj_AAAA by simp
qed

theorem scenario_AAAA_witness:
  "this_sa (SuffixArray insertion_sort False ''AAAA'') = [3, 2, 1, 0] \<and>
   findLCP (SuffixArray insertion_sort False ''AAAA'') = Inr ''AAA''"
  by (rule scenario_AAAA [OF insertion_sort_sorts])

text \<open>
  The text \<open>ABCDE\<close>, where no character occurs twice: the suffix array is
  \<open>[0, 1, 2, 3, 4]\<close> and \<^verbatim>\<open>findLCP\<close> returns the empty string.
\<close>

theorem scenario_ABCDE:
  assumes "sorts srt"
  shows "this_sa (SuffixArray srt signed_char ''ABCDE'') = [0, 1, 2, 3, 4] \<and>
         findLCP (SuffixArray srt signed_char ''ABCDE'') = Inr []"
proof -
  have v: "valid_text sg ''ABCDE''" for sg by (rule valid_text_ascii) simp
  note e = SuffixArray_any_sorter(1,3) [OF assms insertion_sort_sorts v [of signed_char] v [of True]]
  show ?thesis unfolding e lcp_ABCDE unfolding obj_ABCDE by simp
qed

theorem scenario_ABCDE_witness:
  "this_sa (SuffixArray insertion_sort False ''ABCDE'') = [0, 1, 2, 3, 4] \<and>
   findLCP (SuffixArray insertion_sort False ''ABCDE'') = Inr []"
  by (rule scenario_ABCDE [OF insertion_sort_sorts])

subsection \<open>Where the comparison loop of \<^verbatim>\<open>findLCP\<close> stays in the text\<close>

text \<open>
  For every text whose characters all convert to a positive \<^verbatim>\<open>int\<close> (no NUL; no byte
  from 128 on where plain \<^verbatim>\<open>char\<close> is signed) and every index \<open>i\<close> with
  \<^verbatim>\<open>phi[i] != -1\<close>: the loop of \<^verbatim>\<open>findLCP\<close> reaches \<open>i\<close>, the comparison loop
  \<^verbatim>\<open>while (s[i + L] == s[phi[i] + L]) L++\<close> started with the counter it finds there
  terminates, and when it stops \<open>i + L \<le> n\<close> and \<open>phi[i] + L \<le> n\<close>; \<^verbatim>\<open>phi[i]\<close> and \<open>i\<close> are
  distinct indices.
\<close>

theorem lcp_loop_in_bounds:
  assumes "sorts srt" and "valid_text signed_char txt"
    and "build_phi (SuffixArray srt signed_char txt) = Inr phi"
    and "i < length txt" and "phi ! i \<noteq> - 1"
  shows "\<exists>plcp L maxL lcp L'.
           plcp_loop txt phi [0..<i] (replicate (length txt) 0, 0, 0, []) = Inr (plcp, L, maxL, lcp) \<and>
           lcp_extend txt (int i) (phi ! i) L = Inr L' \<and>
           int i + int L' \<le> int (length txt) \<and> phi ! i + int L' \<le> int (length txt) \<and>
           phi ! i \<noteq> int i"
proof -
  let ?t = "SuffixArray srt signed_char txt"
  have wf: "wf_index ?t" by (rule SuffixArray_wf [OF assms(1)])
  have so: "sorted_suffixes (this_s ?t) (this_sa ?t)"
    using SuffixArray_sorted [OF assms(1,2)] by simp
  have n0: "0 < this_n ?t" using assms(4) by (cases "txt") auto
  have nul: "CHR 0x00 \<notin> set (this_s ?t)" using valid_text_no_nul [OF assms(2)] by simp
  have phi: "is_phi (this_sa ?t) phi" using build_phi_is_phi [OF wf n0] assms(3) by simp
  have i: "i < this_n ?t" "i \<le> this_n ?t" using assms(4) by simp_all
  obtain st where st: "plcp_loop (this_s ?t) phi [0..<i] (replicate (this_n ?t) 0, 0, 0, []) = Inr st"
      "plcp_inv (this_s ?t) phi i st"
    using plcp_loop_inv [OF wf so phi nul i(2)] by blast
  obtain plcp L maxL lcp where s: "st = (plcp, L, maxL, lcp)" by (cases st) auto
  have L: "L \<le> plcp_of (this_s ?t) phi i"
    using st(2) assms(4) unfolding plcp_inv_def s by simp
  note e = lcp_extend_at [OF wf phi nul i(1) assms(5) L]
  have "phi ! i + int (plcp_of txt phi i) \<le> int (length txt)" using e(3,4) by simp
  then show ?thesis using st(1) e(1,2,5) unfolding s by auto
qed

text \<open>The theorem at the text \<open>abab\<close> and \<open>i = 1\<close>, where \<^verbatim>\<open>phi\<close> is \<open>[2, 3, -1, 0]\<close>.\<close>

theorem lcp_loop_in_bounds_witness:
  "build_phi (SuffixArray insertion_sort True ''abab'') = Inr [2, 3, - 1, 0] \<and>
   plcp_loop ''abab'' [2, 3, - 1, 0] [0..<1] (replicate 4 0, 0, 0, []) =
     Inr ([2, 0, 0, 0], 1, 2, ''ab'') \<and>
   lcp_extend ''abab'' 1 3 1 = Inr 1 \<and>
   (1::int) + 1 \<le> int (length ''abab'') \<and> (3::int) + 1 \<le> int (length ''abab'')"
proof -
  have "(1::nat) < length ''abab''" "([2, 3, - 1, 0] :: int list) ! 1 \<noteq> - 1" by simp_all
  from lcp_loop_in_bounds [OF insertion_sort_sorts valid_text_abab phi_abab this]
  show ?thesis using phi_abab plcp_abab_1 extend_abab_1 by simp
qed

text \<open>
  Where plain \<^verbatim>\<open>char\<close> is unsigned, this is every text without a NUL character.
\<close>

theorem lcp_loop_in_bounds_unsigned:
  assumes "sorts srt" and "CHR 0x00 \<notin> set txt"
    and "build_phi (SuffixArray srt False txt) = Inr phi"
    and "i < length txt" and "phi ! i \<noteq> - 1"
  shows "\<exists>plcp L maxL lcp L'.
           plcp_loop txt phi [0..<i] (replicate (length txt) 0, 0, 0, []) = Inr (plcp, L, maxL, lcp) \<and>
           lcp_extend txt (int i) (phi ! i) L = Inr L' \<and>
           int i + int L' \<le> int (length txt) \<and> phi ! i + int L' \<le> int (length txt) \<and>
           phi ! i \<noteq> int i"
proof -
  let ?t = "SuffixArray srt False txt"
  have v: "valid_text False txt" using assms(2) unfolding valid_text_unsigned .
  have wf: "wf_index ?t" by (rule SuffixArray_wf [OF assms(1)])
  have so: "sorted_suffixes (this_s ?t) (this_sa ?t)"
    using SuffixArray_sorted [OF assms(1) v] by simp
  have n0: "0 < this_n ?t" using assms(4) by (cases "txt") auto
  have nul: "CHR 0x00 \<notin> set (this_s ?t)" using assms(2) by simp
  have phi: "is_phi (this_sa ?t) phi" using build_phi_is_phi [OF wf n0] assms(3) by simp
  have i: "i < this_n ?t" "i \<le> this_n ?t" using assms(4) by simp_all
  obtain st where st: "plcp_loop (this_s ?t) phi [0..<i] (replicate (this_n ?t) 0, 0, 0, []) = Inr st"
      "plcp_inv (this_s ?t) phi i st"
    using plcp_loop_inv [OF wf so phi nul i(2)] by blast
  obtain plcp L maxL lcp where s: "st = (plcp, L, maxL, lcp)" by (cases st) auto
  have L: "L \<le> plcp_of (this_s ?t) phi i"
    using st(2) assms(4) unfolding plcp_inv_def s by simp
  note e = lcp_extend_at [OF wf phi nul i(1) assms(5) L]
  have "phi ! i + int (plcp_of txt phi i) \<le> int (length txt)" using e(3,4) by simp
  then show ?thesis using st(1) e(1,2,5) unfolding s by auto
qed

text \<open>
  The theorem at the text of four bytes \<open>0xC8\<close> and \<open>i = 0\<close>, where \<^verbatim>\<open>phi\<close> is
  \<open>[1, 2, 3, -1]\<close>: the comparison stops at \<open>L = 3\<close>.
\<close>

theorem lcp_loop_in_bounds_unsigned_witness:
  "build_phi (SuffixArray insertion_sort False [CHR 0xC8, CHR 0xC8, CHR 0xC8, CHR 0xC8]) =
     Inr [1, 2, 3, - 1] \<and>
   lcp_extend [CHR 0xC8, CHR 0xC8, CHR 0xC8, CHR 0xC8] 0 1 0 = Inr 3 \<and>
   (0::int) + 3 \<le> int (length [CHR 0xC8, CHR 0xC8, CHR 0xC8, CHR 0xC8]) \<and>
   (1::int) + 3 \<le> int (length [CHR 0xC8, CHR 0xC8, CHR 0xC8, CHR 0xC8])"
proof -
  have nul: "CHR 0x00 \<notin> set [CHR 0xC8, CHR 0xC8, CHR 0xC8, CHR 0xC8]" by simp
  have "(0::nat) < length [CHR 0xC8, CHR 0xC8, CHR 0xC8, CHR 0xC8]"
    "([1, 2, 3, - 1] :: int list) ! 0 \<noteq> - 1" by simp_all
  from lcp_loop_in_bounds_unsigned [OF insertion_sort_sorts nul phi_hi4u this]
  show ?thesis using phi_hi4u extend_hi4u_0 by simp
qed

end
